theory Spec2Isabelle
  imports Complex_Main "HOL-Library.Word"
begin

section \<open>MultiversoWrapper: the data model\<close>

text \<open>
  The development embeds \<^verbatim>\<open>Source/Common/Include/MultiversoWrapper.h\<close>, the class
  \<^verbatim>\<open>MultiversoWrapper<ElemType>\<close>, in the default build (\<^verbatim>\<open>CPUONLY\<close> not defined; the
  \<^verbatim>\<open>CPUONLY\<close> build never allocates \<^verbatim>\<open>_pDelta\<close>, \<^verbatim>\<open>_pTempForServer\<close> and
  \<^verbatim>\<open>_pTempForLocal\<close>, so none of its operations is defined there).

  Conventions of the embedding:
  \<^item> a host buffer (\<^verbatim>\<open>ElemType *\<close>) and a device buffer (a \<^verbatim>\<open>Matrix<ElemType>\<close>) is the list
    of its elements; the tensors of \<^verbatim>\<open>learnableNodes\<close> are a list of such lists, passed to
    every operation and returned updated;
  \<^item> \<^verbatim>\<open>ElemType\<close> is a type parameter with a subtraction;
  \<^item> a value of the type \<^verbatim>\<open>double\<close> or \<^verbatim>\<open>float\<close> is of the type \<open>ieee\<close>: a finite number,
    an infinity or a NaN, and the arithmetic on it rounds to nearest, ties to even. The
    fields \<^verbatim>\<open>_momentumAdd\<close>, \<^verbatim>\<open>_elasticAdd\<close> and \<^verbatim>\<open>_adjustcoefficient\<close> hold the real value
    of a finite \<^verbatim>\<open>double\<close>, and so does the factor passed to \<^verbatim>\<open>Add\<close>;
  \<^item> \<^verbatim>\<open>size_t\<close> counters whose arithmetic can wrap (\<^verbatim>\<open>_commCnt\<close>, \<^verbatim>\<open>_adjustnbmb\<close>) are
    64-bit words; lengths and offsets into buffers are natural numbers;
  \<^item> the calls made on the Multiverso adaptor are recorded in order in the field
    \<open>adaptor\<close>; what a \<^verbatim>\<open>BatchLoad\<close> delivers is a parameter \<open>srv\<close> of the operations:
    \<open>srv h j\<close> is the merged value of the flattened position \<open>j\<close> that the parameter
    server returns after the calls \<open>h\<close>;
  \<^item> \<^verbatim>\<open>std::thread\<close> objects are values of the type \<open>thread\<close>; the body of a background
    task is applied to the buffers when the task is spawned, and its thread object
    stays joinable until \<^verbatim>\<open>join()\<close>.
\<close>

datatype AdjustLearningRateatBeginning = None_adjust | Linearly | Staircase

text \<open>
  The ways in which an operation ends without a result: the exception of
  \<^verbatim>\<open>InvalidArgument\<close>, and an integer division by zero.
\<close>

datatype error = InvalidArgument | DivideByZero

type_synonym size_t = "64 word"

text \<open>
  A call on \<^verbatim>\<open>multiverso::Adaptor\<close>. \<open>Add row p factor\<close> is
  \<^verbatim>\<open>Add(table_id, row, p, factor)\<close>, where \<open>p\<close> is the buffer as seen from the pointer
  passed (its elements from that position on).
\<close>

datatype 'a call = Add nat "'a list" real | Barrier | BatchLoad

text \<open>
  A \<^verbatim>\<open>std::thread\<close> object: default-constructed or joined (not joinable), or running the
  transfer task of the given cache slot (joinable).
\<close>

datatype thread = NotJoinable | Transfer nat

record 'a wrapper =
  adaptor :: "'a call list"
  pThread :: thread
  leaked :: "thread list"
  isInitialized :: bool
  nClients :: nat
  isPipeline :: bool
  nLocalCache :: nat
  pCacheState :: "nat list"
  nCacheIdx :: nat
  momentumAdd :: real
  elasticAdd :: real
  commCnt :: size_t
  adjustlearningrateatbeginningtype :: AdjustLearningRateatBeginning
  adjustcoefficient :: real
  adjustnbmb :: size_t
  vTableLength :: "nat list"
  lTotalLength :: nat
  vTableIdx :: "nat list"
  pDelta :: "'a list"
  pPCache :: "'a list list"
  pTempForServer :: "'a list"
  pTempForLocal :: "'a list"
  pSizeEachServer :: "nat list"
  pIdxEachServer :: "nat list"
  pPMatrixCache :: "'a list list list"
  nTableCnt :: nat

section \<open>IEEE 754 arithmetic\<close>

text \<open>
  A value of a binary floating-point format. A finite value is given by the real number
  it denotes; the two zeros are not distinguished (nothing below divides by a computed
  zero: the only divisor is an unsigned integer converted to \<^verbatim>\<open>double\<close>).
\<close>

datatype ieee = Finite real | PInf | NInf | NaN

text \<open>The number of binary digits of a natural number.\<close>

fun bits :: "nat \<Rightarrow> nat" where
  "bits n = (if n = 0 then 0 else Suc (bits (n div 2)))"

declare bits.simps [simp del]

text \<open>The exponent \<open>e\<close> of a real number \<open>x\<close> other than 0: \<open>2^e \<le> |x| < 2^(e+1)\<close>.\<close>

definition exponent :: "real \<Rightarrow> int" where
  "exponent x =
     (if 1 \<le> \<bar>x\<bar> then int (bits (nat \<lfloor>\<bar>x\<bar>\<rfloor>)) - 1
      else - int (bits (nat \<lceil>1 / \<bar>x\<bar>\<rceil> - 1)))"

text \<open>The nearest integer, the even one of the two when they are equally near.\<close>

definition round_half_even :: "real \<Rightarrow> int" where
  "round_half_even r =
     (let f = \<lfloor>r\<rfloor> in
      if r - of_int f < 1/2 then f
      else if 1/2 < r - of_int f then f + 1
      else if even f then f else f + 1)"

text \<open>
  Rounding to nearest, ties to even, in the format with \<open>p\<close> digits of precision and the
  exponents \<open>emin .. emax\<close>: the real number is rounded to a multiple of the unit in the
  last place of its binade (of the binade \<open>emin\<close> for subnormal numbers), and a result
  of magnitude \<open>2^(emax+1)\<close> or more is an infinity.
\<close>

definition round_to :: "nat \<Rightarrow> int \<Rightarrow> int \<Rightarrow> real \<Rightarrow> ieee" where
  "round_to p emin emax x =
     (if x = 0 then Finite 0
      else
        (let e = max (exponent x) emin;
             q = 2 powi (e - int p + 1);
             y = of_int (round_half_even (x / q)) * q
         in if 2 powi (emax + 1) \<le> \<bar>y\<bar> then (if 0 < x then PInf else NInf) else Finite y))"

text \<open>The formats of \<^verbatim>\<open>double\<close> and \<^verbatim>\<open>float\<close>.\<close>

definition round_double :: "real \<Rightarrow> ieee" where
  "round_double = round_to 53 (- 1022) 1023"

definition round_float :: "real \<Rightarrow> ieee" where
  "round_float = round_to 24 (- 126) 127"

text \<open>The comparisons \<^verbatim>\<open><\<close>, \<^verbatim>\<open><=\<close> and \<^verbatim>\<open>!=\<close>; a comparison with a NaN is false, but for \<^verbatim>\<open>!=\<close>.\<close>

fun ieee_less :: "ieee \<Rightarrow> ieee \<Rightarrow> bool" where
  "ieee_less NaN y = False"
| "ieee_less x NaN = False"
| "ieee_less (Finite a) (Finite b) = (a < b)"
| "ieee_less PInf y = False"
| "ieee_less x NInf = False"
| "ieee_less NInf y = True"
| "ieee_less x PInf = True"

fun ieee_le :: "ieee \<Rightarrow> ieee \<Rightarrow> bool" where
  "ieee_le NaN y = False"
| "ieee_le x NaN = False"
| "ieee_le NInf y = True"
| "ieee_le x PInf = True"
| "ieee_le PInf y = False"
| "ieee_le x NInf = False"
| "ieee_le (Finite a) (Finite b) = (a \<le> b)"

fun ieee_ne :: "ieee \<Rightarrow> ieee \<Rightarrow> bool" where
  "ieee_ne NaN y = True"
| "ieee_ne x NaN = True"
| "ieee_ne x y = (x \<noteq> y)"

text \<open>
  The arithmetic operations; \<open>rnd\<close> rounds the exact result of two finite operands to
  the format of the operation.
\<close>

fun ieee_neg :: "ieee \<Rightarrow> ieee" where
  "ieee_neg (Finite a) = Finite (- a)"
| "ieee_neg PInf = NInf"
| "ieee_neg NInf = PInf"
| "ieee_neg NaN = NaN"

fun ieee_add :: "(real \<Rightarrow> ieee) \<Rightarrow> ieee \<Rightarrow> ieee \<Rightarrow> ieee" where
  "ieee_add rnd (Finite a) (Finite b) = rnd (a + b)"
| "ieee_add rnd NaN y = NaN"
| "ieee_add rnd x NaN = NaN"
| "ieee_add rnd PInf NInf = NaN"
| "ieee_add rnd NInf PInf = NaN"
| "ieee_add rnd PInf y = PInf"
| "ieee_add rnd NInf y = NInf"
| "ieee_add rnd x PInf = PInf"
| "ieee_add rnd x NInf = NInf"

definition ieee_sub :: "(real \<Rightarrow> ieee) \<Rightarrow> ieee \<Rightarrow> ieee \<Rightarrow> ieee" where
  "ieee_sub rnd x y = ieee_add rnd x (ieee_neg y)"

fun ieee_mult :: "(real \<Rightarrow> ieee) \<Rightarrow> ieee \<Rightarrow> ieee \<Rightarrow> ieee" where
  "ieee_mult rnd (Finite a) (Finite b) = rnd (a * b)"
| "ieee_mult rnd NaN y = NaN"
| "ieee_mult rnd x NaN = NaN"
| "ieee_mult rnd (Finite a) y =
     (if a = 0 then NaN else if 0 < a then y else ieee_neg y)"
| "ieee_mult rnd x (Finite b) =
     (if b = 0 then NaN else if 0 < b then x else ieee_neg x)"
| "ieee_mult rnd PInf y = y"
| "ieee_mult rnd NInf y = ieee_neg y"

fun ieee_div :: "(real \<Rightarrow> ieee) \<Rightarrow> ieee \<Rightarrow> ieee \<Rightarrow> ieee" where
  "ieee_div rnd (Finite a) (Finite b) =
     (if b \<noteq> 0 then rnd (a / b)
      else if a = 0 then NaN else if 0 < a then PInf else NInf)"
| "ieee_div rnd NaN y = NaN"
| "ieee_div rnd x NaN = NaN"
| "ieee_div rnd (Finite a) y = Finite 0"
| "ieee_div rnd x (Finite b) = (if 0 \<le> b then x else ieee_neg x)"
| "ieee_div rnd x y = NaN"

text \<open>The conversion \<^verbatim>\<open>(float)\<close> of a \<^verbatim>\<open>double\<close>.\<close>

fun to_float :: "ieee \<Rightarrow> ieee" where
  "to_float (Finite x) = round_float x"
| "to_float x = x"

text \<open>
  \<^verbatim>\<open>std::max(a, b)\<close> is \<^verbatim>\<open>(a < b) ? b : a\<close> and \<^verbatim>\<open>std::min(a, b)\<close> is \<^verbatim>\<open>(b < a) ? b : a\<close>.
\<close>

definition std_max :: "ieee \<Rightarrow> ieee \<Rightarrow> ieee" where
  "std_max a b = (if ieee_less a b then b else a)"

definition std_min :: "ieee \<Rightarrow> ieee \<Rightarrow> ieee" where
  "std_min a b = (if ieee_less b a then b else a)"

text \<open>The real value of a finite number.\<close>

fun valof :: "ieee \<Rightarrow> real" where
  "valof (Finite a) = a"
| "valof x = 0"

section \<open>The coefficient policy\<close>

text \<open>
  \<^verbatim>\<open>getUpdateCoefficient\<close>. The integer quotient \<^verbatim>\<open>_commCnt / _adjustnbmb + 1\<close> is computed
  in \<^verbatim>\<open>size_t\<close>; for \<^verbatim>\<open>_adjustnbmb = 0\<close> the C++ divides by zero, and no theorem below
  speaks about that configuration.
\<close>

definition getUpdateCoefficient :: "'a wrapper \<Rightarrow> real" where
  "getUpdateCoefficient w =
     (case adjustlearningrateatbeginningtype w of
        None_adjust \<Rightarrow> 1
      | Linearly \<Rightarrow>
          min 1 (max 0 (adjustcoefficient w
            + (1 - adjustcoefficient w) / real (unat (adjustnbmb w)) * real (unat (commCnt w))))
      | Staircase \<Rightarrow>
          min 1 (max 0 (adjustcoefficient w
            * real (unat (commCnt w div adjustnbmb w + 1)))))"

section \<open>Construction and layout\<close>

text \<open>
  \<^verbatim>\<open>std::accumulate(_vTableLength.begin(), _vTableLength.end(), 0)\<close>: the accumulator has
  the type of the initial value, \<^verbatim>\<open>int\<close>; each step adds in \<^verbatim>\<open>size_t\<close> and converts the
  sum back to \<^verbatim>\<open>int\<close>.
\<close>

definition to_int :: "int \<Rightarrow> int" where
  "to_int v = (v + 2 ^ 31) mod 2 ^ 32 - 2 ^ 31"

fun accumulate :: "nat list \<Rightarrow> int \<Rightarrow> int" where
  "accumulate [] init = init"
| "accumulate (len # lens) init =
     accumulate lens (to_int ((init mod 2 ^ 64 + int len) mod 2 ^ 64))"

text \<open>The loop of \<^verbatim>\<open>Init\<close> that fills \<^verbatim>\<open>_pIdxEachServer\<close> and \<^verbatim>\<open>_pSizeEachServer\<close>.\<close>

function Init_partition :: "nat \<Rightarrow> nat \<Rightarrow> nat \<Rightarrow> nat \<Rightarrow> (nat \<times> nat) list" where
  "Init_partition tot n i idx =
     (if i < n then
        (let sz = (if i < tot mod n then tot div n + 1 else tot div n)
         in (idx, sz) # Init_partition tot n (i + 1) (idx + sz))
      else [])"
  by pat_completeness auto
termination
  by (relation "measure (\<lambda>(tot, n, i, idx). n - i)") auto

declare Init_partition.simps [simp del]

text \<open>The loop of \<^verbatim>\<open>Init\<close> that fills \<^verbatim>\<open>_vTableIdx\<close>.\<close>

fun Init_tableIdx :: "nat \<Rightarrow> nat list \<Rightarrow> nat list" where
  "Init_tableIdx idx [] = []"
| "Init_tableIdx idx (len # lens) = idx # Init_tableIdx (idx + len) lens"

text \<open>
  \<^verbatim>\<open>Init\<close>, called once by the constructor. With no worker the loop over the partitions
  is not entered, and the call of \<^verbatim>\<open>SetTable\<close> divides \<^verbatim>\<open>_lTotalLength\<close> by \<^verbatim>\<open>_nClients\<close>,
  that is by zero, before any buffer is allocated. Freshly allocated buffers hold
  \<open>uninit\<close> in every cell (their content is indeterminate in C++); the device caches
  \<^verbatim>\<open>_pPMatrixCache[i]\<close> are arrays of \<^verbatim>\<open>_nTableCnt\<close> pointers not yet set, modelled as empty
  matrices.
\<close>

definition Init :: "'a \<Rightarrow> 'a list list \<Rightarrow> 'a wrapper \<Rightarrow> error + 'a wrapper" where
  "Init uninit learnableNodes w =
     (let lens = map length learnableNodes;
          tot = nat (accumulate lens 0 mod 2 ^ 64);
          parts = Init_partition tot (nClients w) 0 0
      in if nClients w = 0 then Inl DivideByZero
         else Inr (w\<lparr>isInitialized := True,
           vTableLength := lens,
           nTableCnt := length lens,
           lTotalLength := tot,
           pIdxEachServer := map fst parts,
           pSizeEachServer := map snd parts,
           vTableIdx := Init_tableIdx 0 lens,
           pPCache := replicate (nLocalCache w) (replicate (tot + 1) uninit),
           pDelta := replicate (tot + 1) uninit,
           pTempForServer := replicate (tot + 1) uninit,
           pTempForLocal := replicate (tot + 1) uninit,
           pPMatrixCache := replicate (nLocalCache w) (replicate (length lens) [])\<rparr>))"

text \<open>
  The constructor. \<^verbatim>\<open>InvalidArgument\<close> throws, so nothing after it is executed and no
  object exists. The test \<^verbatim>\<open>_momentumAdd * _elasticAdd != 0\<close> multiplies in \<^verbatim>\<open>double\<close>.
  It passes only for two finite coefficients (a product with an infinity or a NaN is
  an infinity or a NaN, and differs from 0), whose values the fields then hold.
  \<open>adjustcoef\<close> is the value of a finite \<^verbatim>\<open>double\<close>; the number of workers is an \<^verbatim>\<open>int\<close>
  in C++, and for a negative one \<^verbatim>\<open>new size_t[_nClients]\<close> fails: the embedding starts
  from a natural number.
\<close>

definition MultiversoWrapper ::
  "'a \<Rightarrow> 'a list list \<Rightarrow> nat \<Rightarrow> bool \<Rightarrow> ieee \<Rightarrow> ieee \<Rightarrow> AdjustLearningRateatBeginning
     \<Rightarrow> real \<Rightarrow> size_t \<Rightarrow> error + 'a wrapper" where
  "MultiversoWrapper uninit learnableNodes localWorkerNumber isPipeline' momentumAdd' elasticAdd'
      adjusttype adjustcoef adjustnbmb' =
     (if ieee_ne (ieee_mult round_double momentumAdd' elasticAdd') (Finite 0)
      then Inl InvalidArgument
      else
        (let nLocalCache' = (if isPipeline' then 2 else 1) in
         Init uninit learnableNodes
           \<lparr>adaptor = [],
            pThread = NotJoinable,
            leaked = [],
            isInitialized = False,
            nClients = localWorkerNumber,
            isPipeline = isPipeline',
            nLocalCache = nLocalCache',
            pCacheState = map (\<lambda>i. (i + 1) mod nLocalCache') [0..<nLocalCache'],
            nCacheIdx = 0,
            momentumAdd = valof momentumAdd',
            elasticAdd = valof elasticAdd',
            commCnt = 0,
            adjustlearningrateatbeginningtype = adjusttype,
            adjustcoefficient = adjustcoef,
            adjustnbmb = adjustnbmb',
            vTableLength = [],
            lTotalLength = 0,
            vTableIdx = [],
            pDelta = [],
            pPCache = [],
            pTempForServer = [],
            pTempForLocal = [],
            pSizeEachServer = [],
            pIdxEachServer = [],
            pPMatrixCache = [],
            nTableCnt = 0\<rparr>))"

section \<open>Buffers\<close>

text \<open>
  \<^verbatim>\<open>memcpy(dst, src, sizeof(ElemType) * n)\<close> and \<^verbatim>\<open>cudaMemcpy\<close> of \<open>n\<close> elements between two
  whole buffers. All the copies below stay inside their buffers on the states the
  theorems speak about; outside them the C++ is undefined.
\<close>

definition memcpy :: "'a list \<Rightarrow> 'a list \<Rightarrow> nat \<Rightarrow> 'a list" where
  "memcpy dst src n = take n src @ drop n dst"

text \<open>
  \<^verbatim>\<open>mat.CopyToArray(px, len)\<close> with \<^verbatim>\<open>px = buf + off\<close> (the matrix library is not part of
  the sources; every call passes \<^verbatim>\<open>len = _vTableLength[i]\<close>, the number of elements of the
  matrix, for which the elements are copied to \<^verbatim>\<open>px[0 .. len)\<close>). The same definition is
  the \<^verbatim>\<open>cudaMemcpyAsync\<close> of a whole device matrix to \<^verbatim>\<open>buf + off\<close>.
\<close>

definition CopyToArray :: "'a list \<Rightarrow> 'a list \<Rightarrow> nat \<Rightarrow> 'a list" where
  "CopyToArray mat buf off = take off buf @ mat @ drop (off + length mat) buf"

text \<open>
  \<^verbatim>\<open>mat.SetValue(mat.GetNumRows(), mat.GetNumCols(), mat.GetDeviceId(), px)\<close> with
  \<^verbatim>\<open>px = buf + off\<close>: the matrix keeps its shape and takes its elements from
  \<^verbatim>\<open>px[0 .. GetNumElements())\<close>. The same definition is the \<^verbatim>\<open>cudaMemcpyAsync\<close> from
  \<^verbatim>\<open>buf + off\<close> into a whole device matrix.
\<close>

definition SetValue :: "'a list \<Rightarrow> 'a list \<Rightarrow> nat \<Rightarrow> 'a list" where
  "SetValue mat buf off = take (length mat) (drop off buf)"

text \<open>
  \<^verbatim>\<open>transform(a, a + n, b, dest, std::minus<ElemType>())\<close>, where \<open>dest\<close> is the buffer
  written (one of \<open>a\<close> and \<open>b\<close> in every call).
\<close>

definition transform_minus :: "'a::minus list \<Rightarrow> 'a list \<Rightarrow> 'a list \<Rightarrow> nat \<Rightarrow> 'a list" where
  "transform_minus a b dest n = map2 (-) (take n a) (take n b) @ drop n dest"

text \<open>
  The loop over \<^verbatim>\<open>learnableNodes\<close> with the tensor index \<open>i\<close> that copies every tensor to
  \<^verbatim>\<open>buf + _vTableIdx[i]\<close>, and the loop that sets every tensor from \<^verbatim>\<open>buf + _vTableIdx[i]\<close>.
\<close>

fun gather :: "nat list \<Rightarrow> nat \<Rightarrow> 'a list list \<Rightarrow> 'a list \<Rightarrow> 'a list" where
  "gather vti i [] buf = buf"
| "gather vti i (mat # nodes) buf = gather vti (i + 1) nodes (CopyToArray mat buf (vti ! i))"

fun scatter :: "nat list \<Rightarrow> nat \<Rightarrow> 'a list list \<Rightarrow> 'a list \<Rightarrow> 'a list list" where
  "scatter vti i [] buf = []"
| "scatter vti i (mat # nodes) buf = SetValue mat buf (vti ! i) # scatter vti (i + 1) nodes buf"

section \<open>The parameter server\<close>

text \<open>
  Modelled from the spec: the Multiverso adaptor is an external library. \<^verbatim>\<open>BatchLoad\<close>
  "pulls the latest merged values for a set of partitions into a caller buffer": for
  every row of the table it writes the merged values of the positions
  \<^verbatim>\<open>[idx[row], idx[row] + size[row])\<close> to \<^verbatim>\<open>buf + idx[row]\<close>. \<open>merged j\<close> is the merged value
  of position \<open>j\<close> at the time of the call; the table has \<^verbatim>\<open>_nClients\<close> rows
  (\<^verbatim>\<open>SetTable\<close> in \<^verbatim>\<open>Init\<close>).
\<close>

definition BatchLoad_row :: "(nat \<Rightarrow> 'a) \<Rightarrow> nat list \<Rightarrow> nat list \<Rightarrow> nat \<Rightarrow> 'a list \<Rightarrow> 'a list" where
  "BatchLoad_row merged idxs sizes row buf =
     CopyToArray (map merged [idxs ! row..<idxs ! row + sizes ! row]) buf (idxs ! row)"

definition BatchLoad_buf :: "(nat \<Rightarrow> 'a) \<Rightarrow> 'a wrapper \<Rightarrow> 'a list \<Rightarrow> 'a list" where
  "BatchLoad_buf merged w buf =
     fold (BatchLoad_row merged (pIdxEachServer w) (pSizeEachServer w)) [0..<nClients w] buf"

text \<open>
  The loop \<^verbatim>\<open>for (row = 0; row < _nClients; row++) _adaptor->Add(table_id, row, buf +
  _pIdxEachServer[row], factor)\<close>, as the calls it appends to the history.
\<close>

definition Add_rows :: "'a wrapper \<Rightarrow> 'a list \<Rightarrow> real \<Rightarrow> 'a call list" where
  "Add_rows w buf factor = map (\<lambda>row. Add row (drop (pIdxEachServer w ! row) buf) factor) [0..<nClients w]"

section \<open>ModelInit\<close>

text \<open>
  The loop of \<^verbatim>\<open>ModelInit\<close> over the tensors: every device cache gets a copy of the
  tensor (\<^verbatim>\<open>new Matrix<ElemType>(mat)\<close>), and the tensor is copied to
  \<^verbatim>\<open>_pPCache[0] + _vTableIdx[i]\<close>.
\<close>

fun ModelInit_nodes ::
  "nat list \<Rightarrow> nat \<Rightarrow> 'a list list \<Rightarrow> 'a list list list \<times> 'a list \<Rightarrow> 'a list list list \<times> 'a list" where
  "ModelInit_nodes vti i [] (cache, buf) = (cache, buf)"
| "ModelInit_nodes vti i (mat # nodes) (cache, buf) =
     ModelInit_nodes vti (i + 1) nodes
       (map (\<lambda>row. row[i := mat]) cache, CopyToArray mat buf (vti ! i))"

definition ModelInit :: "('a call list \<Rightarrow> nat \<Rightarrow> 'a) \<Rightarrow> 'a wrapper \<Rightarrow> 'a list list \<Rightarrow> 'a wrapper" where
  "ModelInit srv w learnableNodes =
     (let factor = 1 / real (nClients w);
          (cache, c0) = ModelInit_nodes (vTableIdx w) 0 learnableNodes (pPMatrixCache w, pPCache w ! 0);
          pc = fold (\<lambda>i pc. pc[i := memcpy (pc ! i) (pc ! 0) (lTotalLength w)])
                 [1..<nLocalCache w] ((pPCache w)[0 := c0]);
          d1 = memcpy (pDelta w) (pc ! 0) (lTotalLength w);
          h1 = adaptor w @ Add_rows w d1 factor @ [Barrier];
          d2 = BatchLoad_buf (srv h1) w d1;
          d3 = memcpy d2 (pc ! 0) (lTotalLength w)
      in w\<lparr>pPMatrixCache := cache, pPCache := pc, pDelta := d3, adaptor := h1 @ [BatchLoad]\<rparr>)"

section \<open>ModelSync\<close>

text \<open>
  The communication with the parameter server for the cache slot \<open>t\<close>: the block
  \<^verbatim>\<open>if (_elasticAdd <= 0.) { ... } else { ... }\<close>, which the body of the background task and
  the non-pipelined branch of \<^verbatim>\<open>ModelSync\<close> both contain.
\<close>

definition transfer ::
  "('a::minus call list \<Rightarrow> nat \<Rightarrow> 'a) \<Rightarrow> 'a wrapper \<Rightarrow> nat \<Rightarrow> real \<Rightarrow> 'a wrapper" where
  "transfer srv w t factor =
     (if elasticAdd w \<le> 0 then
        (let d = transform_minus (pDelta w) (pPCache w ! t) (pDelta w) (lTotalLength w);
             h = adaptor w @ Add_rows w d factor;
             c = BatchLoad_buf (srv h) w (pPCache w ! t)
         in w\<lparr>pDelta := d, pPCache := (pPCache w)[t := c], adaptor := h @ [BatchLoad]\<rparr>)
      else
        (let c1 = BatchLoad_buf (srv (adaptor w)) w (pPCache w ! t);
             c2 = transform_minus (pDelta w) c1 c1 (lTotalLength w);
             h = adaptor w @ [BatchLoad] @ Add_rows w c2 (elasticAdd w);
             d = transform_minus (pDelta w) c2 (pDelta w) (lTotalLength w)
         in w\<lparr>pDelta := d, pPCache := (pPCache w)[t := c2], adaptor := h\<rparr>))"

text \<open>
  The body of the background task (the lambda passed to \<^verbatim>\<open>new thread\<close>): device cache of
  the slot to \<^verbatim>\<open>_pDelta\<close>, communication, host buffer back to the device cache of the slot.
\<close>

definition transfer_task :: "('a::minus call list \<Rightarrow> nat \<Rightarrow> 'a) \<Rightarrow> 'a wrapper \<Rightarrow> 'a wrapper" where
  "transfer_task srv w =
     (let factor = getUpdateCoefficient w;
          t_cacheIdx = nCacheIdx w;
          w1 = w\<lparr>pDelta := gather (vTableIdx w) 0
                  (take (nTableCnt w) (pPMatrixCache w ! t_cacheIdx)) (pDelta w)\<rparr>;
          w2 = transfer srv w1 t_cacheIdx factor;
          py = (if elasticAdd w2 \<le> 0 then pPCache w2 ! t_cacheIdx else pDelta w2);
          row = pPMatrixCache w2 ! t_cacheIdx
      in w2\<lparr>pPMatrixCache := (pPMatrixCache w2)
              [t_cacheIdx := scatter (vTableIdx w2) 0 (take (nTableCnt w2) row) py
                 @ drop (nTableCnt w2) row]\<rparr>)"

text \<open>
  The loop of the pipelined branch over the tensors: tensor to the device cache of the
  active slot, device cache of the other slot to the tensor.
\<close>

fun ModelSync_nodes ::
  "nat \<Rightarrow> nat \<Rightarrow> nat \<Rightarrow> 'a list list \<Rightarrow> 'a list list list \<Rightarrow> 'a list list list \<times> 'a list list" where
  "ModelSync_nodes cur other i [] cache = (cache, [])"
| "ModelSync_nodes cur other i (mat # nodes) cache =
     (let cache1 = cache[cur := (cache ! cur)[i := memcpy (cache ! cur ! i) mat (length mat)]];
          mat1 = memcpy mat (cache1 ! other ! i) (length mat);
          (cache2, nodes1) = ModelSync_nodes cur other (i + 1) nodes cache1
      in (cache2, mat1 # nodes1))"

fun joinable :: "thread \<Rightarrow> bool" where
  "joinable NotJoinable = False"
| "joinable (Transfer t) = True"

text \<open>
  \<^verbatim>\<open>if (_isPipeline && _pThread->joinable()) _pThread->join();\<close> After the join the thread
  object is no longer joinable.
\<close>

definition ModelSync_join :: "'a wrapper \<Rightarrow> 'a wrapper" where
  "ModelSync_join w =
     (if isPipeline w \<and> joinable (pThread w) then w\<lparr>pThread := NotJoinable\<rparr> else w)"

text \<open>
  The part of \<^verbatim>\<open>ModelSync\<close> after the join: the rotation of the active slot, the copies
  between the tensors and the buffers, and the transfer (spawned as a background task
  when pipelined, run by the caller otherwise). \<^verbatim>\<open>_pThread = new thread(...)\<close> starts the
  task on a new thread object; the object \<^verbatim>\<open>_pThread\<close> pointed to before is never deleted
  and is kept in \<open>leaked\<close>.
\<close>

definition ModelSync_after_join ::
  "('a::minus call list \<Rightarrow> nat \<Rightarrow> 'a) \<Rightarrow> 'a wrapper \<Rightarrow> 'a list list \<Rightarrow> 'a wrapper \<times> 'a list list" where
  "ModelSync_after_join srv w2 learnableNodes =
     (let w3 = w2\<lparr>nCacheIdx := pCacheState w2 ! nCacheIdx w2\<rparr>
      in if isPipeline w3 then
           (let (cache, nodes) = ModelSync_nodes (nCacheIdx w3) (pCacheState w3 ! nCacheIdx w3) 0
                                   learnableNodes (pPMatrixCache w3);
                w4 = w3\<lparr>pPMatrixCache := cache\<rparr>;
                w5 = transfer_task srv w4
            in (w5\<lparr>leaked := pThread w5 # leaked w5, pThread := Transfer (nCacheIdx w5)\<rparr>, nodes))
         else
           (let factor = getUpdateCoefficient w3;
                w4 = w3\<lparr>pDelta := gather (vTableIdx w3) 0 learnableNodes (pDelta w3)\<rparr>;
                w5 = transfer srv w4 0 factor
            in (w5, scatter (vTableIdx w5) 0 learnableNodes
                      (if elasticAdd w5 \<le> 0 then pPCache w5 ! 0 else pDelta w5))))"

text \<open>\<^verbatim>\<open>ModelSync\<close>: the round counter, the join, and the rest.\<close>

definition ModelSync ::
  "('a::minus call list \<Rightarrow> nat \<Rightarrow> 'a) \<Rightarrow> 'a wrapper \<Rightarrow> 'a list list \<Rightarrow> 'a wrapper \<times> 'a list list" where
  "ModelSync srv w learnableNodes =
     (let w1 = w\<lparr>commCnt := commCnt w + 1\<rparr>;
          w2 = ModelSync_join w1
      in ModelSync_after_join srv w2 learnableNodes)"

section \<open>ModelLoadServer and ModelLoadBack\<close>

definition ModelLoadServer ::
  "('a call list \<Rightarrow> nat \<Rightarrow> 'a) \<Rightarrow> 'a wrapper \<Rightarrow> 'a list list \<Rightarrow> 'a wrapper \<times> 'a list list" where
  "ModelLoadServer srv w learnableNodes =
     (let w1 = w\<lparr>pTempForLocal := gather (vTableIdx w) 0 learnableNodes (pTempForLocal w)\<rparr>;
          w2 = w1\<lparr>pTempForServer := BatchLoad_buf (srv (adaptor w1)) w1 (pTempForServer w1),
                  adaptor := adaptor w1 @ [BatchLoad]\<rparr>
      in (w2, scatter (vTableIdx w2) 0 learnableNodes (pTempForServer w2)))"

definition ModelLoadBack :: "'a wrapper \<Rightarrow> 'a list list \<Rightarrow> 'a list list" where
  "ModelLoadBack w learnableNodes = scatter (vTableIdx w) 0 learnableNodes (pTempForLocal w)"

section \<open>Well-formed states\<close>

text \<open>
  The layout that the constructor leaves for the tensors \<open>nodes\<close>: the sizes and offsets
  of the tensors, the partition map, the cache-slot rotation, and buffers of
  \<^verbatim>\<open>_lTotalLength + 1\<close> elements. The operations read and write inside their buffers
  exactly on such states.
\<close>

definition layout_ok :: "'a wrapper \<Rightarrow> 'a list list \<Rightarrow> bool" where
  "layout_ok w nodes \<longleftrightarrow>
     vTableLength w = map length nodes \<and>
     nTableCnt w = length nodes \<and>
     vTableIdx w = Init_tableIdx 0 (vTableLength w) \<and>
     lTotalLength w = sum_list (vTableLength w) \<and>
     0 < nClients w \<and>
     pIdxEachServer w = map fst (Init_partition (lTotalLength w) (nClients w) 0 0) \<and>
     pSizeEachServer w = map snd (Init_partition (lTotalLength w) (nClients w) 0 0) \<and>
     nLocalCache w = (if isPipeline w then 2 else 1) \<and>
     pCacheState w = map (\<lambda>i. (i + 1) mod nLocalCache w) [0..<nLocalCache w] \<and>
     nCacheIdx w < nLocalCache w \<and>
     length (pDelta w) = lTotalLength w + 1 \<and>
     length (pTempForServer w) = lTotalLength w + 1 \<and>
     length (pTempForLocal w) = lTotalLength w + 1 \<and>
     length (pPCache w) = nLocalCache w \<and>
     list_all (\<lambda>c. length c = lTotalLength w + 1) (pPCache w) \<and>
     length (pPMatrixCache w) = nLocalCache w \<and>
     list_all (\<lambda>row. length row = nTableCnt w) (pPMatrixCache w)"

text \<open>The device caches as \<^verbatim>\<open>ModelInit\<close> leaves them: one matrix per tensor, of its size.\<close>

definition caches_ok :: "'a wrapper \<Rightarrow> bool" where
  "caches_ok w \<longleftrightarrow> list_all (\<lambda>row. map length row = vTableLength w) (pPMatrixCache w)"


text \<open>A flat buffer cut into tensors of the given sizes.\<close>

fun unflatten :: "nat list \<Rightarrow> 'a list \<Rightarrow> 'a list list" where
  "unflatten [] buf = []"
| "unflatten (len # lens) buf = take len buf # unflatten lens (drop len buf)"



text \<open>
  Modelled from the spec: a parameter server for the concrete instances. \<^verbatim>\<open>Add\<close>
  "accumulates a weighted delta into a partition", \<^verbatim>\<open>BatchLoad\<close> and \<^verbatim>\<open>Barrier\<close> leave the
  table as it is; \<open>tab\<close> is the content of the table before the calls of this worker
  (what the other workers have added).
\<close>

fun store_call :: "nat list \<Rightarrow> nat list \<Rightarrow> real call \<Rightarrow> (nat \<Rightarrow> real) \<Rightarrow> nat \<Rightarrow> real" where
  "store_call idxs sizes (Add row p factor) tab j =
     (if idxs ! row \<le> j \<and> j < idxs ! row + sizes ! row
      then tab j + factor * p ! (j - idxs ! row) else tab j)"
| "store_call idxs sizes Barrier tab j = tab j"
| "store_call idxs sizes BatchLoad tab j = tab j"

definition store :: "nat list \<Rightarrow> nat list \<Rightarrow> (nat \<Rightarrow> real) \<Rightarrow> real call list \<Rightarrow> nat \<Rightarrow> real" where
  "store idxs sizes tab h = fold (store_call idxs sizes) h tab"

section \<open>A concrete wrapper\<close>

text \<open>
  The wrapper constructed for two tensors of 3 and 5 elements and 3 workers, without
  pipelining; the concrete instances below start from it.
\<close>

definition example_wrapper :: "real wrapper" where
  "example_wrapper = projr (MultiversoWrapper 0 [[0, 0, 0], [0, 0, 0, 0, 0]] 3 False (Finite 0) (Finite 0) None_adjust (1/5) 600)"


text \<open>The construction without pipelining and with elastic averaging.\<close>

definition example_elastic :: "real wrapper" where
  "example_elastic = projr (MultiversoWrapper 0 [[0, 0, 0], [0, 0, 0, 0, 0]] 3 False (Finite 0) (Finite (1/2)) None_adjust (1/5) 600)"

section \<open>Facts about rounding\<close>

lemma bits_bounds: "0 < n \<Longrightarrow> 2 ^ (bits n - 1) \<le> n \<and> n < 2 ^ bits n"
proof (induction n rule: bits.induct)
  case (1 n)
  show ?case
  proof (cases "n div 2 = 0")
    case True
    with 1(2) have "n = 1" by (simp add: div_eq_0_iff)
    then show ?thesis by (simp add: bits.simps)
  next
    case False
    then have h: "2 ^ (bits (n div 2) - 1) \<le> n div 2 \<and> n div 2 < 2 ^ bits (n div 2)"
      using 1 by simp
    have b: "bits n = Suc (bits (n div 2))" using 1(2) by (subst bits.simps) simp
    have p: "0 < bits (n div 2)" using False by (subst bits.simps) simp
    then have "(2::nat) ^ bits (n div 2) = 2 * 2 ^ (bits (n div 2) - 1)"
      by (cases "bits (n div 2)") simp_all
    with h show ?thesis unfolding b by simp arith
  qed
qed

lemma bits_pos: "0 < n \<Longrightarrow> 0 < bits n"
  by (subst bits.simps) simp

lemma exponent_bounds:
  assumes "x \<noteq> 0"
  shows "2 powi (exponent x) \<le> \<bar>x\<bar> \<and> \<bar>x\<bar> < 2 powi (exponent x + 1)"
proof (cases "1 \<le> \<bar>x\<bar>")
  case True
  let ?n = "nat \<lfloor>\<bar>x\<bar>\<rfloor>"
  have n: "0 < ?n" using True by simp
  have e: "exponent x = int (bits ?n - 1)" using True bits_pos [OF n] by (simp add: exponent_def)
  from bits_bounds [OF n] have b: "2 ^ (bits ?n - 1) \<le> ?n" "?n < 2 ^ bits ?n" by simp_all
  have "real (2 ^ (bits ?n - 1)) \<le> real ?n" using b(1) by (simp only: of_nat_le_iff)
  also have "real ?n \<le> \<bar>x\<bar>" by simp
  finally have lo: "2 powi (exponent x) \<le> \<bar>x\<bar>" unfolding e by (simp add: power_int_def)
  have "?n + 1 \<le> 2 ^ bits ?n" using b(2) by arith
  then have "real (?n + 1) \<le> real (2 ^ bits ?n)" by (simp only: of_nat_le_iff)
  moreover have "\<bar>x\<bar> < real (?n + 1)" by simp linarith
  ultimately have "\<bar>x\<bar> < 2 ^ bits ?n" by simp
  moreover have "exponent x + 1 = int (bits ?n)" unfolding e using bits_pos [OF n] by simp
  ultimately have hi: "\<bar>x\<bar> < 2 powi (exponent x + 1)" by (simp add: power_int_def)
  from lo hi show ?thesis by simp
next
  case False
  let ?z = "1 / \<bar>x\<bar>"
  let ?m = "nat \<lceil>?z\<rceil>"
  let ?k = "bits (?m - 1)"
  have x: "0 < \<bar>x\<bar>" "\<bar>x\<bar> < 1" using assms False by simp_all
  have z: "1 < ?z" using x by simp
  then have c: "1 < \<lceil>?z\<rceil>" by linarith
  then have m: "0 < ?m - 1" by simp
  have m1: "1 \<le> ?m" using c by linarith
  have e: "exponent x = - int ?k" using False by (simp add: exponent_def)
  from bits_bounds [OF m] have b: "2 ^ (?k - 1) \<le> ?m - 1" "?m - 1 < 2 ^ ?k" by simp_all
  have "?m \<le> 2 ^ ?k" using b(2) m by arith
  then have "real ?m \<le> real (2 ^ ?k)" by (simp only: of_nat_le_iff)
  then have mk: "real ?m \<le> 2 ^ ?k" by (simp only: of_nat_power of_nat_numeral)
  have "?z \<le> real ?m" using z by simp
  from this mk have "?z \<le> 2 ^ ?k" by (rule order_trans)
  then have "1 \<le> 2 ^ ?k * \<bar>x\<bar>" using x by (simp add: field_simps)
  then have lo: "2 powi (exponent x) \<le> \<bar>x\<bar>"
    unfolding e by (simp add: power_int_minus field_simps)
  have kpos: "0 < ?k" using bits_pos [OF m] .
  have "real (2 ^ (?k - 1)) \<le> real (?m - 1)" using b(1) by (simp only: of_nat_le_iff)
  then have km: "2 ^ (?k - 1) \<le> real (?m - 1)" by (simp only: of_nat_power of_nat_numeral)
  have "real (?m - 1) = real ?m - 1" using m1 by (simp only: of_nat_diff of_nat_1)
  moreover have "real ?m = of_int \<lceil>?z\<rceil>" using c by simp
  moreover have "of_int \<lceil>?z\<rceil> - 1 < ?z" using ceiling_correct [of ?z] by (rule conjunct1)
  ultimately have "real (?m - 1) < ?z" by (simp only:)
  with km have "2 ^ (?k - 1) < ?z" by (rule order_le_less_trans)
  then have "2 ^ (?k - 1) * \<bar>x\<bar> < 1" using x by (simp add: field_simps)
  moreover have "exponent x + 1 = - int (?k - 1)" unfolding e using kpos by simp
  ultimately have hi: "\<bar>x\<bar> < 2 powi (exponent x + 1)"
    by (simp add: power_int_minus field_simps)
  from lo hi show ?thesis by simp
qed


lemma powi_mono: "a \<le> b \<Longrightarrow> (2::real) powi a \<le> 2 powi b"
  by (rule power_int_increasing) simp_all


lemma rhe_cases:
  "round_half_even r = \<lfloor>r\<rfloor> \<or> round_half_even r = \<lfloor>r\<rfloor> + 1"
  by (simp add: round_half_even_def Let_def)

lemma rhe_int [simp]: "round_half_even (of_int k) = k"
  by (simp add: round_half_even_def)

lemma rhe_zero [simp]: "round_half_even 0 = 0"
  using rhe_int [of 0] by simp

lemma rhe_mono:
  assumes "r \<le> s"
  shows "round_half_even r \<le> round_half_even s"
proof (cases "\<lfloor>r\<rfloor> = \<lfloor>s\<rfloor>")
  case True
  then show ?thesis using assms by (auto simp add: round_half_even_def Let_def)
next
  case False
  have "\<lfloor>r\<rfloor> \<le> \<lfloor>s\<rfloor>" using assms by (rule floor_mono)
  with False have "\<lfloor>r\<rfloor> + 1 \<le> \<lfloor>s\<rfloor>" by simp
  moreover have "round_half_even r \<le> \<lfloor>r\<rfloor> + 1" using rhe_cases [of r] by auto
  moreover have "\<lfloor>s\<rfloor> \<le> round_half_even s" using rhe_cases [of s] by auto
  ultimately show ?thesis by simp
qed

lemma rhe_ge: "of_int k \<le> r \<Longrightarrow> k \<le> round_half_even r"
  using rhe_mono [of "of_int k" r] by simp

lemma rhe_le: "r \<le> of_int k \<Longrightarrow> round_half_even r \<le> k"
  using rhe_mono [of r "of_int k"] by simp

lemma rhe_minus: "round_half_even (- r) = - round_half_even r"
proof (cases "r = of_int \<lfloor>r\<rfloor>")
  case True
  then obtain k where "r = of_int k" ..
  then have "- r = of_int (- k)" by simp
  then show ?thesis using \<open>r = of_int k\<close> by (simp only: rhe_int)
next
  case False
  then have nz: "r \<notin> \<int>" by (metis Ints_cases of_int_floor_cancel)
  have f: "\<lfloor>- r\<rfloor> = - \<lfloor>r\<rfloor> - 1" using False by (simp add: floor_minus ceiling_altdef)
  show ?thesis
    unfolding round_half_even_def Let_def f
    by (auto simp add: algebra_simps)
qed



lemma powi_not_le_0 [simp]: "\<not> (2::real) powi k \<le> 0"
  by (simp add: not_le)

lemma pow_powi: "(2::real) ^ n * 2 powi k = 2 powi (int n + k)"
  by (simp add: power_int_add)


lemma exponent_minus [simp]: "exponent (- x) = exponent x"
  by (simp add: exponent_def)

lemma exponent_mono:
  assumes "x \<noteq> 0" and "\<bar>x\<bar> \<le> \<bar>y\<bar>"
  shows "exponent x \<le> exponent y"
proof (rule ccontr)
  assume "\<not> exponent x \<le> exponent y"
  then have "exponent y + 1 \<le> exponent x" by simp
  then have "(2::real) powi (exponent y + 1) \<le> 2 powi (exponent x)" by (rule powi_mono)
  moreover have "y \<noteq> 0" using assms by auto
  ultimately show False
    using exponent_bounds [OF assms(1)] exponent_bounds [OF \<open>y \<noteq> 0\<close>] assms(2) by linarith
qed

lemma round_to_not_NaN [simp]: "round_to p emin emax x \<noteq> NaN"
  by (simp add: round_to_def Let_def)

lemma round_to_0 [simp]: "round_to p emin emax 0 = Finite 0"
  by (simp add: round_to_def)

lemma round_to_minus: "round_to p emin emax (- x) = ieee_neg (round_to p emin emax x)"
  by (simp add: round_to_def Let_def rhe_minus)




lemma round_to_pos_cases:
  assumes "0 < x"
  shows "round_to p emin emax x = PInf \<or> (\<exists>y. round_to p emin emax x = Finite y \<and> 0 \<le> y)"
proof -
  define q :: real where "q = 2 powi (max (exponent x) emin - int p + 1)"
  have "0 \<le> x / q" using assms by (simp add: q_def)
  then have "0 \<le> round_half_even (x / q)" using rhe_ge [of 0 "x / q"] by simp
  then have "0 \<le> real_of_int (round_half_even (x / q)) * q" by (simp add: q_def)
  then show ?thesis using assms by (simp add: round_to_def Let_def q_def [symmetric])
qed

lemma round_to_mono_pos:
  assumes p: "0 < p" and x: "0 < x" and xy: "x \<le> y"
  shows "ieee_le (round_to p emin emax x) (round_to p emin emax y)"
proof -
  have y: "0 < y" using x xy by simp
  define ex where "ex = max (exponent x) emin"
  define ey where "ey = max (exponent y) emin"
  define qx :: real where "qx = 2 powi (ex - int p + 1)"
  define qy :: real where "qy = 2 powi (ey - int p + 1)"
  define yx where "yx = of_int (round_half_even (x / qx)) * qx"
  define yy where "yy = of_int (round_half_even (y / qy)) * qy"
  have rx: "round_to p emin emax x = (if 2 powi (emax + 1) \<le> \<bar>yx\<bar> then PInf else Finite yx)"
    using x by (simp add: round_to_def Let_def ex_def qx_def yx_def)
  have ry: "round_to p emin emax y = (if 2 powi (emax + 1) \<le> \<bar>yy\<bar> then PInf else Finite yy)"
    using y by (simp add: round_to_def Let_def ey_def qy_def yy_def)
  have qx: "0 < qx" and qy: "0 < qy" by (simp_all add: qx_def qy_def)
  have "0 \<le> round_half_even (x / qx)" using rhe_ge [of 0 "x / qx"] x qx by simp
  then have yx0: "0 \<le> yx" using qx by (simp add: yx_def)
  have "0 \<le> round_half_even (y / qy)" using rhe_ge [of 0 "y / qy"] y qy by simp
  then have yy0: "0 \<le> yy" using qy by (simp add: yy_def)
  have exy: "ex \<le> ey"
    using exponent_mono [of x y] x xy y by (auto simp add: ex_def ey_def)
  have le: "yx \<le> yy"
  proof (cases "ex = ey")
    case True
    then have "qx = qy" by (simp add: qx_def qy_def)
    moreover have "x / qy \<le> y / qy" using xy qy by (simp add: divide_right_mono)
    ultimately show ?thesis
      unfolding yx_def yy_def using qy rhe_mono [of "x / qy" "y / qy"] by simp
  next
    case False
    with exy have lt: "ex + 1 \<le> ey" by simp
    then have eyy: "ey = exponent y" and "exponent x \<le> ex" by (simp_all add: ey_def ex_def)
    have "x < 2 powi (exponent x + 1)" using exponent_bounds [of x] x by simp
    also have "\<dots> \<le> 2 powi (ex + 1)" using \<open>exponent x \<le> ex\<close> by (intro powi_mono) simp
    finally have "x < 2 powi (ex + 1)" .
    then have "x / qx \<le> 2 powi (ex + 1) / qx" using qx by (simp add: divide_right_mono)
    also have "2 powi (ex + 1) / qx = 2 powi (int p)" unfolding qx_def
      by (simp add: power_int_diff [symmetric])
    also have "\<dots> = of_int (2 ^ p)" by (simp add: power_int_def)
    finally have "round_half_even (x / qx) \<le> 2 ^ p" by (rule rhe_le)
    then have "real_of_int (round_half_even (x / qx)) \<le> real_of_int (2 ^ p)"
      by (simp only: of_int_le_iff)
    then have "yx \<le> 2 ^ p * qx" unfolding yx_def using qx by simp
    also have "2 ^ p * qx = 2 powi (ex + 1)" unfolding qx_def
      by (simp add: pow_powi)
    also have "\<dots> \<le> 2 powi ey" using lt by (rule powi_mono)
    finally have a: "yx \<le> 2 powi ey" .
    have "2 powi ey \<le> y" using exponent_bounds [of y] y eyy by simp
    then have "2 powi ey / qy \<le> y / qy" using qy by (simp add: divide_right_mono)
    moreover have "2 powi ey / qy = of_int (2 ^ (p - 1))"
    proof -
      have "2 powi ey / qy = 2 powi (int p - 1)" unfolding qy_def
        by (simp add: power_int_diff [symmetric])
      also have "int p - 1 = int (p - 1)" using p by simp
      finally show ?thesis by (simp add: power_int_def)
    qed
    ultimately have "2 ^ (p - 1) \<le> round_half_even (y / qy)" using rhe_ge by simp
    then have "real_of_int (2 ^ (p - 1)) \<le> real_of_int (round_half_even (y / qy))"
      by (simp only: of_int_le_iff)
    then have "2 ^ (p - 1) * qy \<le> yy" unfolding yy_def using qy by simp
    moreover have "2 ^ (p - 1) * qy = 2 powi ey"
    proof -
      have "int (p - 1) + (ey - int p + 1) = ey" using p by simp
      then show ?thesis unfolding qy_def by (simp add: pow_powi)
    qed
    ultimately show ?thesis using a by simp
  qed
  show ?thesis
    unfolding rx ry using le yx0 yy0 by auto
qed

lemma ieee_le_refl: "x \<noteq> NaN \<Longrightarrow> ieee_le x x"
  by (cases x) simp_all

lemma ieee_le_trans: "ieee_le x y \<Longrightarrow> ieee_le y z \<Longrightarrow> ieee_le x z"
  by (cases x; cases y; cases z) simp_all

lemma ieee_le_neg: "ieee_le (ieee_neg x) (ieee_neg y) = ieee_le y x"
  by (cases x; cases y) simp_all

lemma round_to_nonneg:
  assumes "0 \<le> x"
  shows "ieee_le (Finite 0) (round_to p emin emax x)"
proof (cases "x = 0")
  case True
  then show ?thesis by simp
next
  case False
  with assms have "0 < x" by simp
  from round_to_pos_cases [OF this, of p emin emax] show ?thesis by auto
qed

lemma round_to_nonpos:
  assumes "x \<le> 0"
  shows "ieee_le (round_to p emin emax x) (Finite 0)"
proof -
  have "ieee_le (Finite 0) (round_to p emin emax (- x))" using assms by (intro round_to_nonneg) simp
  then have "ieee_le (ieee_neg (Finite 0)) (ieee_neg (round_to p emin emax x))"
    by (simp add: round_to_minus)
  then show ?thesis by (simp only: ieee_le_neg)
qed

lemma round_to_mono:
  assumes p: "0 < p" and xy: "x \<le> y"
  shows "ieee_le (round_to p emin emax x) (round_to p emin emax y)"
proof -
  consider "0 < x" | "x \<le> 0" "0 \<le> y" | "y < 0" by linarith
  then show ?thesis
  proof cases
    case 1
    then show ?thesis using xy by (rule round_to_mono_pos [OF p])
  next
    case 2
    from round_to_nonpos [OF 2(1)] round_to_nonneg [OF 2(2)] show ?thesis
      by (rule ieee_le_trans)
  next
    case 3
    then have "0 < - y" "- y \<le> - x" using xy by simp_all
    then have "ieee_le (round_to p emin emax (- y)) (round_to p emin emax (- x))"
      by (rule round_to_mono_pos [OF p])
    then show ?thesis by (simp only: round_to_minus ieee_le_neg)
  qed
qed


lemma round_double_0 [simp]: "round_double 0 = Finite 0"
  by (simp add: round_double_def)

lemma round_float_0 [simp]: "round_float 0 = Finite 0"
  by (simp add: round_float_def)



section \<open>Facts about the layout\<close>

lemma Init_partition_closed:
  "idx = i * (tot div n) + min i (tot mod n) \<Longrightarrow>
   Init_partition tot n i idx =
     map (\<lambda>k. (k * (tot div n) + min k (tot mod n),
               tot div n + (if k < tot mod n then 1 else 0))) [i..<n]"
proof (induction tot n i idx rule: Init_partition.induct)
  case (1 tot n i idx)
  show ?case
  proof (cases "i < n")
    case False
    then show ?thesis by (subst Init_partition.simps) simp
  next
    case True
    let ?sz = "if i < tot mod n then tot div n + 1 else tot div n"
    have step: "idx + ?sz = (i + 1) * (tot div n) + min (i + 1) (tot mod n)"
      using "1.prems" by (simp add: min_def)
    have "Init_partition tot n i idx = (idx, ?sz) # Init_partition tot n (i + 1) (idx + ?sz)"
      using True by (subst Init_partition.simps) (simp add: Let_def)
    also have "Init_partition tot n (i + 1) (idx + ?sz) =
        map (\<lambda>k. (k * (tot div n) + min k (tot mod n),
                  tot div n + (if k < tot mod n then 1 else 0))) [i + 1..<n]"
      using "1.IH" [OF True refl step] .
    finally show ?thesis
      using True "1.prems" by (simp add: upt_conv_Cons)
  qed
qed

lemma Init_partition_nth:
  assumes "k < n"
  shows "Init_partition tot n 0 0 ! k =
     (k * (tot div n) + min k (tot mod n), tot div n + (if k < tot mod n then 1 else 0))"
  using assms by (simp add: Init_partition_closed)

lemma Init_partition_length: "length (Init_partition tot n 0 0) = n"
  by (simp add: Init_partition_closed)

lemma part_off_Suc:
  "Suc k * q + min (Suc k) r = (k * q + min k r) + (q + (if k < r then 1 else 0))"
  by (simp add: min_def)

lemma part_off_mono:
  "j \<le> k \<Longrightarrow> j * q + min j r \<le> k * q + min k (r::nat)"
  by (simp add: add_mono min.coboundedI1 min.coboundedI2 min_le_iff_disj)

lemma part_off_n: "0 < n \<Longrightarrow> n * (tot div n) + min n (tot mod n) = (tot::nat)"
proof -
  assume "0 < n"
  then have "tot mod n < n" by simp
  then have "min n (tot mod n) = tot mod n" by simp
  then show ?thesis by simp
qed

lemma part_cover:
  "(\<Union>k<n. {k * q + min k r..<Suc k * q + min (Suc k) (r::nat)}) = {0..<n * q + min n r}"
proof (induction n)
  case 0
  then show ?case by simp
next
  case (Suc n)
  have le: "n * q + min n r \<le> Suc n * q + min (Suc n) r"
    by (rule part_off_mono) simp
  have "(\<Union>k<Suc n. {k * q + min k r..<Suc k * q + min (Suc k) r}) =
      {0..<n * q + min n r} \<union> {n * q + min n r..<Suc n * q + min (Suc n) r}"
    using Suc.IH by (simp add: lessThan_Suc Un_commute)
  also have "\<dots> = {0..<Suc n * q + min (Suc n) r}"
    using le by (simp add: ivl_disj_un_two)
  finally show ?case .
qed

text \<open>
  Claim C1. For every number of workers \<open>n > 0\<close> and every total length \<open>tot\<close>, the
  partition map that \<^verbatim>\<open>Init\<close> computes has \<open>n\<close> ranges that start at 0, are contiguous
  (each begins where the previous one ends) and so disjoint, end at \<open>tot\<close> and cover
  \<open>[0, tot)\<close> exactly; two sizes differ by at most 1, and the first \<open>tot mod n\<close> ranges
  hold one element more than \<open>tot div n\<close>. For \<open>tot = 8\<close> and \<open>n = 3\<close> the ranges are
  (0,3), (3,3), (6,2). The constructor stores this map in \<^verbatim>\<open>_pIdxEachServer\<close> and
  \<^verbatim>\<open>_pSizeEachServer\<close>. (No intermediate value exceeds \<open>tot\<close>, so the \<^verbatim>\<open>size_t\<close>
  arithmetic of the loop does not wrap.)
\<close>

theorem C1_partition_map:
  assumes "0 < n"
  shows "length (Init_partition tot n 0 0) = n
    \<and> fst (Init_partition tot n 0 0 ! 0) = 0
    \<and> (\<forall>k. Suc k < n \<longrightarrow>
          fst (Init_partition tot n 0 0 ! Suc k) =
            fst (Init_partition tot n 0 0 ! k) + snd (Init_partition tot n 0 0 ! k))
    \<and> fst (Init_partition tot n 0 0 ! (n - 1)) + snd (Init_partition tot n 0 0 ! (n - 1)) = tot
    \<and> (\<forall>j k. j < k \<and> k < n \<longrightarrow>
          fst (Init_partition tot n 0 0 ! j) + snd (Init_partition tot n 0 0 ! j)
            \<le> fst (Init_partition tot n 0 0 ! k))
    \<and> (\<Union>k<n. {fst (Init_partition tot n 0 0 ! k)..<
               fst (Init_partition tot n 0 0 ! k) + snd (Init_partition tot n 0 0 ! k)}) = {0..<tot}
    \<and> (\<forall>j k. j < n \<and> k < n \<longrightarrow>
          snd (Init_partition tot n 0 0 ! j) \<le> snd (Init_partition tot n 0 0 ! k) + 1)
    \<and> (\<forall>k<n. snd (Init_partition tot n 0 0 ! k) = tot div n + (if k < tot mod n then 1 else 0))
    \<and> Init_partition 8 3 0 0 = [(0, 3), (3, 3), (6, 2)]
    \<and> (\<forall>w. MultiversoWrapper uninit nodes n isP m e ty c nb = Inr w \<longrightarrow>
          zip (pIdxEachServer w) (pSizeEachServer w) = Init_partition (lTotalLength w) n 0 0)"
proof -
  let ?pm = "Init_partition tot n 0 0"
  let ?q = "tot div n" and ?r = "tot mod n"
  have nth: "?pm ! k = (k * ?q + min k ?r, ?q + (if k < ?r then 1 else 0))" if "k < n" for k
    using that by (rule Init_partition_nth)
  have c1: "length ?pm = n" by (rule Init_partition_length)
  have c2: "fst (?pm ! 0) = 0" using assms by (simp add: nth)
  have c3: "\<forall>k. Suc k < n \<longrightarrow> fst (?pm ! Suc k) = fst (?pm ! k) + snd (?pm ! k)"
    by (simp add: nth min_def)
  have fin: "fst (?pm ! k) + snd (?pm ! k) = Suc k * ?q + min (Suc k) ?r" if "k < n" for k
    using that by (simp add: nth min_def)
  have c4: "fst (?pm ! (n - 1)) + snd (?pm ! (n - 1)) = tot"
    using assms fin [of "n - 1"] part_off_n [of n tot] by simp
  have c5: "\<forall>j k. j < k \<and> k < n \<longrightarrow> fst (?pm ! j) + snd (?pm ! j) \<le> fst (?pm ! k)"
  proof (intro allI impI)
    fix j k assume jk: "j < k \<and> k < n"
    then have "fst (?pm ! j) + snd (?pm ! j) = Suc j * ?q + min (Suc j) ?r"
      using fin [of j] by simp
    also have "\<dots> \<le> k * ?q + min k ?r"
      using jk by (intro part_off_mono) simp
    also have "\<dots> = fst (?pm ! k)" using jk by (simp add: nth)
    finally show "fst (?pm ! j) + snd (?pm ! j) \<le> fst (?pm ! k)" .
  qed
  have f1: "fst (?pm ! k) = k * ?q + min k ?r" if "k < n" for k
    using that by (simp add: nth)
  have iv: "{fst (?pm ! k)..<fst (?pm ! k) + snd (?pm ! k)} =
      {k * ?q + min k ?r..<Suc k * ?q + min (Suc k) ?r}" if "k < n" for k
    by (subst fin [OF that], subst f1 [OF that], rule refl)
  have "(\<Union>k<n. {fst (?pm ! k)..<fst (?pm ! k) + snd (?pm ! k)}) =
      (\<Union>k<n. {k * ?q + min k ?r..<Suc k * ?q + min (Suc k) ?r})"
    using iv by (intro SUP_cong refl) simp
  also have "\<dots> = {0..<n * ?q + min n ?r}" by (rule part_cover)
  also have "\<dots> = {0..<tot}" using assms part_off_n [of n tot] by simp
  finally have c6: "(\<Union>k<n. {fst (?pm ! k)..<fst (?pm ! k) + snd (?pm ! k)}) = {0..<tot}" .
  have c7: "\<forall>j k. j < n \<and> k < n \<longrightarrow> snd (?pm ! j) \<le> snd (?pm ! k) + 1"
    by (simp add: nth)
  have c8: "\<forall>k<n. snd (?pm ! k) = ?q + (if k < ?r then 1 else 0)"
    by (simp add: nth)
  have c9: "Init_partition 8 3 0 0 = [(0, 3), (3, 3), (6, 2)]"
    by (simp add: Init_partition_closed upt_conv_Cons)
  have c10: "\<forall>w. MultiversoWrapper uninit nodes n isP m e ty c nb = Inr w \<longrightarrow>
      zip (pIdxEachServer w) (pSizeEachServer w) = Init_partition (lTotalLength w) n 0 0"
    by (auto simp add: MultiversoWrapper_def Init_def Let_def zip_map_fst_snd split: if_splits)
  from c1 c2 c3 c4 c5 c6 c7 c8 c9 c10 show ?thesis by blast
qed

theorem C1_partition_map_witness:
  "(0::nat) < 3
   \<and> Init_partition 8 3 0 0 = [(0, 3), (3, 3), (6, 2)]
   \<and> length (Init_partition 8 3 0 0) = 3
   \<and> fst (Init_partition 8 3 0 0 ! 2) + snd (Init_partition 8 3 0 0 ! 2) = 8
   \<and> snd (Init_partition 8 3 0 0 ! 0) = 3 \<and> snd (Init_partition 8 3 0 0 ! 2) = 2
   \<and> (\<exists>w. MultiversoWrapper (0::real) [[1, 2, 3], [4, 5, 6, 7, 8]] 3 True (Finite 0) (Finite 0) None_adjust (1/5) 600 = Inr w
        \<and> lTotalLength w = 8 \<and> vTableIdx w = [0, 3]
        \<and> zip (pIdxEachServer w) (pSizeEachServer w) = [(0, 3), (3, 3), (6, 2)])"
proof -
  have ex: "\<exists>w. MultiversoWrapper (0::real) [[1, 2, 3], [4, 5, 6, 7, 8]] 3 True (Finite 0) (Finite 0) None_adjust (1/5) 600 = Inr w
      \<and> lTotalLength w = 8 \<and> vTableIdx w = [0, 3]"
    by (simp add: MultiversoWrapper_def Init_def Let_def to_int_def)
  have pos: "(0::nat) < 3" by simp
  note inst = C1_partition_map [OF pos, of 8 "0::real" "[[1, 2, 3], [4, 5, 6, 7, 8]]" True "Finite 0" "Finite 0" None_adjust "1/5" 600]
  from inst have ex8: "Init_partition 8 3 0 0 = [(0, 3), (3, 3), (6, 2)]" by blast
  from ex inst ex8 show ?thesis
    by (auto simp add: ex8)
qed

section \<open>Facts about buffers\<close>

lemma Init_tableIdx_length: "length (Init_tableIdx b lens) = length lens"
  by (induction lens arbitrary: b) auto

lemma Init_tableIdx_nth:
  "i < length lens \<Longrightarrow> Init_tableIdx b lens ! i = b + sum_list (take i lens)"
proof (induction lens arbitrary: b i)
  case Nil
  then show ?case by simp
next
  case (Cons len lens)
  then show ?case by (cases i) auto
qed

lemma gather_flat_gen:
  assumes "\<And>k. k < length nodes \<Longrightarrow> vti ! (i + k) = b + sum_list (map length (take k nodes))"
    and "b + sum_list (map length nodes) \<le> length buf"
  shows "gather vti i nodes buf = take b buf @ concat nodes @ drop (b + sum_list (map length nodes)) buf"
  using assms
proof (induction nodes arbitrary: i b buf)
  case Nil
  then show ?case by simp
next
  case (Cons mat nodes)
  let ?buf1 = "CopyToArray mat buf (vti ! i)"
  have v0: "vti ! i = b" using Cons.prems(1) [of 0] by simp
  have b1: "?buf1 = take b buf @ mat @ drop (b + length mat) buf"
    by (simp add: CopyToArray_def v0)
  have len1: "length ?buf1 = length buf"
    using Cons.prems(2) by (simp add: b1)
  have idx: "vti ! (i + 1 + k) = (b + length mat) + sum_list (map length (take k nodes))"
    if "k < length nodes" for k
    using Cons.prems(1) [of "Suc k"] that by simp
  have bound: "(b + length mat) + sum_list (map length nodes) \<le> length ?buf1"
    using Cons.prems(2) len1 by simp
  have "gather vti i (mat # nodes) buf = gather vti (i + 1) nodes ?buf1" by simp
  also have "\<dots> = take (b + length mat) ?buf1 @ concat nodes
      @ drop ((b + length mat) + sum_list (map length nodes)) ?buf1"
    using idx bound by (rule Cons.IH)
  also have "take (b + length mat) ?buf1 = take b buf @ mat"
    using Cons.prems(2) by (simp add: b1)
  also have "drop ((b + length mat) + sum_list (map length nodes)) ?buf1
      = drop (b + sum_list (map length (mat # nodes))) buf"
    using Cons.prems(2) by (simp add: b1 ac_simps)
  finally show ?case by simp
qed

lemma gather_flat:
  assumes "vti = Init_tableIdx 0 (map length nodes)"
    and "sum_list (map length nodes) \<le> length buf"
  shows "gather vti 0 nodes buf = concat nodes @ drop (sum_list (map length nodes)) buf"
proof -
  have "gather vti 0 nodes buf = take 0 buf @ concat nodes @ drop (0 + sum_list (map length nodes)) buf"
    using assms by (intro gather_flat_gen) (simp_all add: Init_tableIdx_nth take_map)
  then show ?thesis by simp
qed

lemma scatter_flat_gen:
  assumes "\<And>k. k < length nodes \<Longrightarrow> vti ! (i + k) = b + sum_list (map length (take k nodes))"
  shows "scatter vti i nodes buf = unflatten (map length nodes) (drop b buf)"
  using assms
proof (induction nodes arbitrary: i b)
  case Nil
  then show ?case by simp
next
  case (Cons mat nodes)
  have v0: "vti ! i = b" using Cons.prems [of 0] by simp
  have idx: "vti ! (i + 1 + k) = (b + length mat) + sum_list (map length (take k nodes))"
    if "k < length nodes" for k
    using Cons.prems [of "Suc k"] that by simp
  have "scatter vti (i + 1) nodes buf = unflatten (map length nodes) (drop (b + length mat) buf)"
    using idx by (rule Cons.IH)
  then show ?case by (simp add: SetValue_def v0 add.commute)
qed

lemma scatter_flat:
  assumes "vti = Init_tableIdx 0 (map length nodes)"
  shows "scatter vti 0 nodes buf = unflatten (map length nodes) buf"
proof -
  have "scatter vti 0 nodes buf = unflatten (map length nodes) (drop 0 buf)"
    using assms by (intro scatter_flat_gen) (simp_all add: Init_tableIdx_nth take_map)
  then show ?thesis by simp
qed

lemma unflatten_concat: "unflatten (map length xs) (concat xs @ r) = xs"
  by (induction xs) auto

lemma length_unflatten: "length (unflatten lens buf) = length lens"
  by (induction lens arbitrary: buf) auto

lemma map_length_unflatten:
  "sum_list lens \<le> length buf \<Longrightarrow> map length (unflatten lens buf) = lens"
  by (induction lens arbitrary: buf) auto

lemma concat_unflatten:
  "sum_list lens \<le> length buf \<Longrightarrow> concat (unflatten lens buf) = take (sum_list lens) buf"
proof (induction lens arbitrary: buf)
  case Nil
  then show ?case by simp
next
  case (Cons len lens)
  then show ?case by (simp add: take_add)
qed

lemma unflatten_take:
  "sum_list lens \<le> n \<Longrightarrow> unflatten lens (take n buf) = unflatten lens buf"
proof (induction lens arbitrary: buf n)
  case Nil
  then show ?case by simp
next
  case (Cons len lens)
  then show ?case by (simp add: drop_take min_absorb1)
qed

lemma BatchLoad_rows_prefix:
  assumes "k \<le> n" and "tot \<le> length buf"
  shows "fold (BatchLoad_row merged (map fst (Init_partition tot n 0 0))
                 (map snd (Init_partition tot n 0 0))) [0..<k] buf =
         map merged [0..<k * (tot div n) + min k (tot mod n)]
           @ drop (k * (tot div n) + min k (tot mod n)) buf"
  using assms(1)
proof (induction k)
  case 0
  then show ?case by simp
next
  case (Suc k)
  let ?q = "tot div n" and ?r = "tot mod n"
  let ?off = "k * ?q + min k ?r"
  let ?sz = "?q + (if k < ?r then 1 else 0)"
  let ?buf = "map merged [0..<?off] @ drop ?off buf"
  have kn: "k < n" using Suc.prems by simp
  have npos: "0 < n" using kn by simp
  have nth: "Init_partition tot n 0 0 ! k = (?off, ?sz)"
    using kn by (rule Init_partition_nth)
  have next_off: "Suc k * ?q + min (Suc k) ?r = ?off + ?sz"
    by (rule part_off_Suc)
  have "?off + ?sz \<le> n * ?q + min n ?r"
    unfolding next_off [symmetric] using Suc.prems by (intro part_off_mono)
  then have bound: "?off + ?sz \<le> length buf"
    using part_off_n [OF npos, of tot] assms(2) by simp
  have IH: "fold (BatchLoad_row merged (map fst (Init_partition tot n 0 0))
      (map snd (Init_partition tot n 0 0))) [0..<k] buf = ?buf"
    using Suc by simp
  have row: "BatchLoad_row merged (map fst (Init_partition tot n 0 0))
      (map snd (Init_partition tot n 0 0)) k ?buf =
      map merged [0..<?off + ?sz] @ drop (?off + ?sz) buf"
  proof -
    have "BatchLoad_row merged (map fst (Init_partition tot n 0 0))
        (map snd (Init_partition tot n 0 0)) k ?buf =
        CopyToArray (map merged [?off..<?off + ?sz]) ?buf ?off"
      using kn by (simp add: BatchLoad_row_def nth Init_partition_length)
    also have "\<dots> = map merged [0..<?off] @ map merged [?off..<?off + ?sz]
        @ drop (?off + ?sz) buf"
      using bound by (simp add: CopyToArray_def add.commute)
    also have "\<dots> = map merged [0..<?off + ?sz] @ drop (?off + ?sz) buf"
      by (simp add: upt_add_eq_append [of 0, simplified] del: upt_Suc)
    finally show ?thesis .
  qed
  show ?case
    by (simp only: upt_Suc_append [OF le0] fold_append comp_apply fold.simps id_apply IH row next_off)
qed

lemma BatchLoad_flat:
  assumes "pIdxEachServer w = map fst (Init_partition (lTotalLength w) (nClients w) 0 0)"
    and "pSizeEachServer w = map snd (Init_partition (lTotalLength w) (nClients w) 0 0)"
    and "0 < nClients w" and "lTotalLength w \<le> length buf"
  shows "BatchLoad_buf merged w buf =
     map merged [0..<lTotalLength w] @ drop (lTotalLength w) buf"
  using BatchLoad_rows_prefix [where k = "nClients w" and n = "nClients w" and merged = merged,
      OF le_refl assms(4)]
    part_off_n [OF assms(3), of "lTotalLength w"]
  by (simp add: BatchLoad_buf_def assms(1,2))

lemma transform_minus_take:
  "n \<le> length a \<Longrightarrow> n \<le> length b \<Longrightarrow>
   take n (transform_minus a b dest n) = map2 (-) (take n a) (take n b)"
  by (simp add: transform_minus_def)

lemma transform_minus_drop:
  "n \<le> length a \<Longrightarrow> n \<le> length b \<Longrightarrow> drop n (transform_minus a b dest n) = drop n dest"
  by (simp add: transform_minus_def)

lemma transform_minus_length:
  "n \<le> length a \<Longrightarrow> n \<le> length b \<Longrightarrow> n \<le> length dest \<Longrightarrow>
   length (transform_minus a b dest n) = length dest"
  by (simp add: transform_minus_def)

lemma map2_minus_cancel:
  fixes xs ys :: "'a::ab_group_add list"
  shows "length xs = length ys \<Longrightarrow> map2 (-) xs (map2 (-) xs ys) = ys"
proof (induction xs arbitrary: ys)
  case Nil
  then show ?case by simp
next
  case (Cons x xs)
  then show ?case by (cases ys) auto
qed

section \<open>The coefficient policy and the constructor\<close>


lemma clamp_range: "0 \<le> min 1 (max 0 (x::real)) \<and> min 1 (max 0 x) \<le> 1"
  by simp



lemma example_fields:
  "adjustnbmb example_wrapper = 600" "commCnt example_wrapper = 0"
  "adjustcoefficient example_wrapper = 1/5"
  "adjustlearningrateatbeginningtype example_wrapper = None_adjust"
  by (simp_all add: example_wrapper_def MultiversoWrapper_def Init_def Let_def)








lemma ne_zero_Finite: "ieee_ne x (Finite 0) = (x \<noteq> Finite 0)"
  by (cases x) simp_all

lemma Init_success: "(\<exists>w. Init uninit nodes w0 = Inr w) = (0 < nClients w0)"
  by (simp add: Init_def Let_def)

lemma constructor_success:
  "(\<exists>w. MultiversoWrapper uninit nodes n isP m e ty c nb = Inr w)
     = (ieee_mult round_double m e = Finite 0 \<and> 0 < n)"
  by (simp add: MultiversoWrapper_def Let_def ne_zero_Finite Init_success)

lemma constructor_projr:
  assumes "ieee_mult round_double m e = Finite 0" and "0 < n"
  shows "MultiversoWrapper uninit nodes n isP m e ty c nb
     = Inr (projr (MultiversoWrapper uninit nodes n isP m e ty c nb))"
proof -
  from assms have "\<exists>w. MultiversoWrapper uninit nodes n isP m e ty c nb = Inr w"
    by (simp only: constructor_success)
  then show ?thesis by auto
qed




section \<open>Layout of a constructed wrapper; checkpoint transfer\<close>

lemma accumulate_exact:
  "0 \<le> init \<Longrightarrow> init + int (sum_list lens) < 2 ^ 31 \<Longrightarrow>
   accumulate lens init = init + int (sum_list lens)"
proof (induction lens arbitrary: init)
  case Nil
  then show ?case by simp
next
  case (Cons len lens)
  have small: "init + int len < 2 ^ 31" using Cons.prems by simp
  have nonneg: "0 \<le> init + int len" using Cons.prems by simp
  have m64: "(init mod 2 ^ 64 + int len) mod 2 ^ 64 = init + int len"
    using Cons.prems(1) small by simp
  have "to_int (init + int len) = init + int len"
    using nonneg small by (simp add: to_int_def)
  then have "accumulate (len # lens) init = accumulate lens (init + int len)"
    by (simp only: accumulate.simps m64)
  also have "\<dots> = (init + int len) + int (sum_list lens)"
    using Cons.prems nonneg by (intro Cons.IH) simp_all
  finally show ?case by simp
qed

lemma Init_layout_ok:
  assumes "Init uninit nodes w0 = Inr w" and "sum_list (map length nodes) < 2 ^ 31"
    and "nLocalCache w0 = (if isPipeline w0 then 2 else 1)"
    and "pCacheState w0 = map (\<lambda>i. (i + 1) mod nLocalCache w0) [0..<nLocalCache w0]"
    and "nCacheIdx w0 < nLocalCache w0"
  shows "layout_ok w nodes"
proof -
  have tot: "nat (accumulate (map length nodes) 0 mod 2 ^ 64) = sum_list (map length nodes)"
    using accumulate_exact [of 0 "map length nodes"] assms(2) by simp
  from assms(1) have n: "0 < nClients w0"
    by (simp add: Init_def Let_def split: if_splits)
  from assms(1) n have w: "w = w0\<lparr>isInitialized := True,
           vTableLength := map length nodes,
           nTableCnt := length (map length nodes),
           lTotalLength := sum_list (map length nodes),
           pIdxEachServer := map fst (Init_partition (sum_list (map length nodes)) (nClients w0) 0 0),
           pSizeEachServer := map snd (Init_partition (sum_list (map length nodes)) (nClients w0) 0 0),
           vTableIdx := Init_tableIdx 0 (map length nodes),
           pPCache := replicate (nLocalCache w0) (replicate (sum_list (map length nodes) + 1) uninit),
           pDelta := replicate (sum_list (map length nodes) + 1) uninit,
           pTempForServer := replicate (sum_list (map length nodes) + 1) uninit,
           pTempForLocal := replicate (sum_list (map length nodes) + 1) uninit,
           pPMatrixCache := replicate (nLocalCache w0) (replicate (length (map length nodes)) [])\<rparr>"
    unfolding Init_def Let_def tot by simp
  show ?thesis
    unfolding layout_ok_def w
    using n assms(3,4,5) by (simp add: list_all_length)
qed

lemma constructor_Init:
  assumes "MultiversoWrapper uninit nodes n isP m e ty c nb = Inr w"
  shows "Init uninit nodes
           \<lparr>adaptor = [], pThread = NotJoinable, leaked = [], isInitialized = False,
            nClients = n, isPipeline = isP, nLocalCache = (if isP then 2 else 1),
            pCacheState = map (\<lambda>i. (i + 1) mod (if isP then 2 else 1)) [0..<(if isP then 2 else 1)],
            nCacheIdx = 0, momentumAdd = valof m, elasticAdd = valof e, commCnt = 0,
            adjustlearningrateatbeginningtype = ty, adjustcoefficient = c, adjustnbmb = nb,
            vTableLength = [], lTotalLength = 0, vTableIdx = [], pDelta = [], pPCache = [],
            pTempForServer = [], pTempForLocal = [], pSizeEachServer = [], pIdxEachServer = [],
            pPMatrixCache = [], nTableCnt = 0\<rparr> = Inr w"
  using assms unfolding MultiversoWrapper_def Let_def by (simp split: if_splits)

lemma constructor_layout_ok:
  assumes "MultiversoWrapper uninit nodes n isP m e ty c nb = Inr w"
    and "0 < n" and "sum_list (map length nodes) < 2 ^ 31"
  shows "layout_ok w nodes"
  using constructor_Init [OF assms(1)] assms(3) by (rule Init_layout_ok) simp_all

lemma layout_ok_shape:
  "layout_ok w nodes \<Longrightarrow> map length nodes' = map length nodes \<Longrightarrow> layout_ok w nodes'"
  by (auto simp add: layout_ok_def dest: map_eq_imp_length_eq)

lemma example_wrapper_layout_ok: "layout_ok example_wrapper [[a1, a2, a3], [b1, b2, b3, b4, b5]]"
proof -
  have "MultiversoWrapper 0 [[0, 0, 0], [0, 0, 0, 0, 0::real]] 3 False (Finite 0) (Finite 0) None_adjust (1/5) 600
      = Inr example_wrapper"
    unfolding example_wrapper_def by (rule constructor_projr) simp_all
  then have "layout_ok example_wrapper [[0, 0, 0], [0, 0, 0, 0, 0]]"
    by (rule constructor_layout_ok) simp_all
  then show ?thesis by (rule layout_ok_shape) simp
qed

text \<open>
  Claim C10. On a wrapper with the layout of the tensors \<open>nodes\<close>, \<^verbatim>\<open>ModelLoadServer\<close>
  saves the tensors in \<^verbatim>\<open>_pTempForLocal\<close> and overwrites them with the snapshot that
  \<^verbatim>\<open>BatchLoad\<close> delivers, and \<^verbatim>\<open>ModelLoadBack\<close> called next on these tensors restores
  every tensor to its value before \<^verbatim>\<open>ModelLoadServer\<close>.
\<close>

theorem C10_load_server_then_back:
  assumes "layout_ok w nodes"
  shows "ModelLoadBack (fst (ModelLoadServer srv w nodes)) (snd (ModelLoadServer srv w nodes)) = nodes
    \<and> take (lTotalLength w) (pTempForLocal (fst (ModelLoadServer srv w nodes))) = concat nodes
    \<and> snd (ModelLoadServer srv w nodes) =
        unflatten (map length nodes) (map (srv (adaptor w)) [0..<lTotalLength w])"
proof -
  let ?tot = "lTotalLength w"
  let ?lens = "map length nodes"
  have vti: "vTableIdx w = Init_tableIdx 0 ?lens" and tot: "?tot = sum_list ?lens"
    and ltl: "length (pTempForLocal w) = ?tot + 1" and lts: "length (pTempForServer w) = ?tot + 1"
    and idx: "pIdxEachServer w = map fst (Init_partition ?tot (nClients w) 0 0)"
    and sz: "pSizeEachServer w = map snd (Init_partition ?tot (nClients w) 0 0)"
    and npos: "0 < nClients w"
    using assms by (simp_all add: layout_ok_def)
  let ?tl = "gather (vTableIdx w) 0 nodes (pTempForLocal w)"
  let ?ts = "BatchLoad_buf (srv (adaptor w)) w (pTempForServer w)"
  have tl: "?tl = concat nodes @ drop ?tot (pTempForLocal w)"
    using gather_flat [OF vti, of "pTempForLocal w"] ltl tot by simp
  have ts: "?ts = map (srv (adaptor w)) [0..<?tot] @ drop ?tot (pTempForServer w)"
    using lts by (intro BatchLoad_flat idx sz npos) simp
  have server: "snd (ModelLoadServer srv w nodes) = unflatten ?lens (map (srv (adaptor w)) [0..<?tot])"
  proof -
    have "snd (ModelLoadServer srv w nodes) = scatter (vTableIdx w) 0 nodes ?ts"
      by (simp add: ModelLoadServer_def Let_def BatchLoad_buf_def)
    also have "\<dots> = unflatten ?lens ?ts" using vti by (rule scatter_flat)
    also have "\<dots> = unflatten ?lens (take ?tot ?ts)"
      using tot by (simp add: unflatten_take)
    also have "take ?tot ?ts = map (srv (adaptor w)) [0..<?tot]" by (simp add: ts)
    finally show ?thesis .
  qed
  have shape: "map length (snd (ModelLoadServer srv w nodes)) = ?lens"
    unfolding server using tot by (simp add: map_length_unflatten)
  have tl_eq: "pTempForLocal (fst (ModelLoadServer srv w nodes)) = ?tl"
    and vti': "vTableIdx (fst (ModelLoadServer srv w nodes)) = vTableIdx w"
    by (simp_all add: ModelLoadServer_def Let_def)
  have back_gen: "ModelLoadBack (fst (ModelLoadServer srv w nodes)) ns =
      unflatten (map length ns) (pTempForLocal (fst (ModelLoadServer srv w nodes)))"
    if "map length ns = ?lens" for ns
    unfolding ModelLoadBack_def vti' using vti that by (intro scatter_flat) simp
  have restored: "ModelLoadBack (fst (ModelLoadServer srv w nodes)) (snd (ModelLoadServer srv w nodes)) = nodes"
    using back_gen [OF shape] by (simp add: shape tl_eq tl unflatten_concat)
  have c2: "take ?tot (pTempForLocal (fst (ModelLoadServer srv w nodes))) = concat nodes"
    using tot by (simp add: tl_eq tl length_concat)
  from restored c2 server show ?thesis by blast
qed

lemma example_wrapper_total: "lTotalLength example_wrapper = 8"
  by (simp add: example_wrapper_def MultiversoWrapper_def Init_def Let_def to_int_def)

lemma upt_0_8: "[0..<8] = [0, 1, 2, 3, 4, 5, 6, 7::nat]"
  by code_simp

theorem C10_load_server_then_back_witness:
  "layout_ok example_wrapper [[1, 2, 3], [4, 5, 6, 7, 8]]
   \<and> snd (ModelLoadServer (\<lambda>h j. real j) example_wrapper [[1, 2, 3], [4, 5, 6, 7, 8]])
       = [[0, 1, 2], [3, 4, 5, 6, 7]]
   \<and> ModelLoadBack (fst (ModelLoadServer (\<lambda>h j. real j) example_wrapper [[1, 2, 3], [4, 5, 6, 7, 8]]))
        (snd (ModelLoadServer (\<lambda>h j. real j) example_wrapper [[1, 2, 3], [4, 5, 6, 7, 8]]))
       = [[1, 2, 3], [4, 5, 6, 7, 8]]"
proof -
  have ok: "layout_ok example_wrapper [[1, 2, 3], [4, 5, 6, 7, 8]]"
    by (rule example_wrapper_layout_ok)
  note inst = C10_load_server_then_back [OF ok, of "\<lambda>h j. real j"]
  from inst have a: "snd (ModelLoadServer (\<lambda>h j. real j) example_wrapper [[1, 2, 3], [4, 5, 6, 7, 8]])
       = [[0, 1, 2], [3, 4, 5, 6, 7]]"
    by (simp add: example_wrapper_total upt_0_8)
  from inst ok a show ?thesis by blast
qed

section \<open>A synchronisation round without pipelining\<close>

lemma layout_okD:
  assumes "layout_ok w nodes"
  shows "vTableLength w = map length nodes"
    and "nTableCnt w = length nodes"
    and "vTableIdx w = Init_tableIdx 0 (map length nodes)"
    and "lTotalLength w = sum_list (map length nodes)"
    and "0 < nClients w"
    and "pIdxEachServer w = map fst (Init_partition (lTotalLength w) (nClients w) 0 0)"
    and "pSizeEachServer w = map snd (Init_partition (lTotalLength w) (nClients w) 0 0)"
    and "length (pDelta w) = lTotalLength w + 1"
    and "length (pPCache w) = nLocalCache w"
    and "i < nLocalCache w \<Longrightarrow> length (pPCache w ! i) = lTotalLength w + 1"
  using assms by (simp_all add: layout_ok_def list_all_length)

lemma upt_0_2: "[0..<2] = [0, 1::nat]"
  by code_simp

lemma layout_ok_slots:
  assumes "layout_ok w nodes"
  shows "\<not> isPipeline w \<Longrightarrow> nLocalCache w = 1 \<and> pCacheState w = [0] \<and> nCacheIdx w = 0"
    and "isPipeline w \<Longrightarrow> nLocalCache w = 2 \<and> pCacheState w = [1, 0] \<and> nCacheIdx w < 2"
  using assms by (auto simp add: layout_ok_def upt_0_2)

lemma transfer_asgd:
  assumes "pIdxEachServer w = map fst (Init_partition (lTotalLength w) (nClients w) 0 0)"
    and "pSizeEachServer w = map snd (Init_partition (lTotalLength w) (nClients w) 0 0)"
    and "0 < nClients w" and "elasticAdd w \<le> 0"
    and "lTotalLength w \<le> length (pPCache w ! t)"
  shows "transfer srv w t f =
     w\<lparr>pDelta := map2 (-) (take (lTotalLength w) (pDelta w)) (take (lTotalLength w) (pPCache w ! t))
                   @ drop (lTotalLength w) (pDelta w),
       pPCache := (pPCache w)[t :=
          map (srv (adaptor w @ Add_rows w
                 (map2 (-) (take (lTotalLength w) (pDelta w)) (take (lTotalLength w) (pPCache w ! t))
                   @ drop (lTotalLength w) (pDelta w)) f)) [0..<lTotalLength w]
            @ drop (lTotalLength w) (pPCache w ! t)],
       adaptor := adaptor w @ Add_rows w
                 (map2 (-) (take (lTotalLength w) (pDelta w)) (take (lTotalLength w) (pPCache w ! t))
                   @ drop (lTotalLength w) (pDelta w)) f @ [BatchLoad]\<rparr>"
  using assms(4)
  by (simp add: transfer_def Let_def transform_minus_def
      BatchLoad_flat [OF assms(1,2,3,5)])

lemma transfer_elastic:
  assumes "pIdxEachServer w = map fst (Init_partition (lTotalLength w) (nClients w) 0 0)"
    and "pSizeEachServer w = map snd (Init_partition (lTotalLength w) (nClients w) 0 0)"
    and "0 < nClients w" and "0 < elasticAdd w"
    and "lTotalLength w \<le> length (pPCache w ! t)"
    and "lTotalLength w \<le> length (pDelta w)"
  shows "transfer srv w t f =
     w\<lparr>pDelta := map2 (-) (take (lTotalLength w) (pDelta w))
                     (map2 (-) (take (lTotalLength w) (pDelta w))
                        (map (srv (adaptor w)) [0..<lTotalLength w]))
                   @ drop (lTotalLength w) (pDelta w),
       pPCache := (pPCache w)[t :=
          map2 (-) (take (lTotalLength w) (pDelta w)) (map (srv (adaptor w)) [0..<lTotalLength w])
            @ drop (lTotalLength w) (pPCache w ! t)],
       adaptor := adaptor w @ [BatchLoad] @ Add_rows w
          (map2 (-) (take (lTotalLength w) (pDelta w)) (map (srv (adaptor w)) [0..<lTotalLength w])
            @ drop (lTotalLength w) (pPCache w ! t)) (elasticAdd w)\<rparr>"
  using assms(4,6)
  by (simp add: transfer_def Let_def transform_minus_def
      BatchLoad_flat [OF assms(1,2,3,5)] min_absorb2)

lemma getUpdateCoefficient_cong:
  "adjustlearningrateatbeginningtype w' = adjustlearningrateatbeginningtype w \<Longrightarrow>
   adjustcoefficient w' = adjustcoefficient w \<Longrightarrow> adjustnbmb w' = adjustnbmb w \<Longrightarrow>
   commCnt w' = commCnt w \<Longrightarrow> getUpdateCoefficient w' = getUpdateCoefficient w"
  by (auto simp add: getUpdateCoefficient_def split: AdjustLearningRateatBeginning.splits)

lemma transfer_frame:
  "transfer srv w t f =
     w\<lparr>pDelta := pDelta (transfer srv w t f), pPCache := pPCache (transfer srv w t f),
       adaptor := adaptor (transfer srv w t f)\<rparr>"
  by (simp add: transfer_def Let_def)

lemma ModelSync_join_not_pipelined: "\<not> isPipeline w \<Longrightarrow> ModelSync_join w = w"
  by (simp add: ModelSync_join_def)

lemma layout_ok_buffers:
  assumes "layout_ok w nodes"
    and "k < nLocalCache w"
    and "length d = lTotalLength w + 1"
    and "length (pPCache w) = length pc"
    and "list_all (\<lambda>c. length c = lTotalLength w + 1) pc"
  shows "layout_ok (w\<lparr>commCnt := cnt, nCacheIdx := k, pDelta := d,
            pPCache := pc, adaptor := h\<rparr>) nodes"
  using assms by (auto simp add: layout_ok_def)

lemma ModelSync_np_asgd:
  assumes ok: "layout_ok w nodes" and np: "\<not> isPipeline w" and asgd: "elasticAdd w \<le> 0"
  shows "ModelSync srv w nodes =
     (w\<lparr>commCnt := commCnt w + 1, nCacheIdx := 0,
        pDelta := map2 (-) (concat nodes) (take (lTotalLength w) (pPCache w ! 0))
                    @ drop (lTotalLength w) (pDelta w),
        pPCache := (pPCache w)[0 :=
           map (srv (adaptor w @ Add_rows w
                  (map2 (-) (concat nodes) (take (lTotalLength w) (pPCache w ! 0))
                    @ drop (lTotalLength w) (pDelta w))
                  (getUpdateCoefficient (w\<lparr>commCnt := commCnt w + 1\<rparr>)))) [0..<lTotalLength w]
             @ drop (lTotalLength w) (pPCache w ! 0)],
        adaptor := adaptor w @ Add_rows w
                  (map2 (-) (concat nodes) (take (lTotalLength w) (pPCache w ! 0))
                    @ drop (lTotalLength w) (pDelta w))
                  (getUpdateCoefficient (w\<lparr>commCnt := commCnt w + 1\<rparr>)) @ [BatchLoad]\<rparr>,
      unflatten (map length nodes)
        (map (srv (adaptor w @ Add_rows w
                  (map2 (-) (concat nodes) (take (lTotalLength w) (pPCache w ! 0))
                    @ drop (lTotalLength w) (pDelta w))
                  (getUpdateCoefficient (w\<lparr>commCnt := commCnt w + 1\<rparr>)))) [0..<lTotalLength w]))"
proof -
  note L = layout_okD [OF ok]
  note S = layout_ok_slots(1) [OF ok np]
  let ?tot = "lTotalLength w"
  let ?w4 = "w\<lparr>commCnt := commCnt w + 1, nCacheIdx := 0,
      pDelta := concat nodes @ drop ?tot (pDelta w)\<rparr>"
  let ?f = "getUpdateCoefficient (w\<lparr>commCnt := commCnt w + 1\<rparr>)"
  have slot: "length (pPCache w ! 0) = ?tot + 1" using L(10) [of 0] S by simp
  have g: "gather (vTableIdx w) 0 nodes (pDelta w) = concat nodes @ drop ?tot (pDelta w)"
    using gather_flat [OF L(3), of "pDelta w"] L(4,8) by simp
  have coef: "getUpdateCoefficient (w\<lparr>commCnt := commCnt w + 1, nCacheIdx := 0\<rparr>) = ?f"
    by (rule getUpdateCoefficient_cong) simp_all
  have tr: "transfer srv ?w4 0 ?f =
      ?w4\<lparr>pDelta := map2 (-) (concat nodes) (take ?tot (pPCache w ! 0)) @ drop ?tot (pDelta w),
        pPCache := (pPCache w)[0 :=
           map (srv (adaptor w @ Add_rows w
                  (map2 (-) (concat nodes) (take ?tot (pPCache w ! 0)) @ drop ?tot (pDelta w)) ?f))
               [0..<?tot] @ drop ?tot (pPCache w ! 0)],
        adaptor := adaptor w @ Add_rows w
                  (map2 (-) (concat nodes) (take ?tot (pPCache w ! 0)) @ drop ?tot (pDelta w)) ?f
                  @ [BatchLoad]\<rparr>"
    using transfer_asgd [of ?w4 0 srv ?f] L(4,5,6,7,8) asgd slot
    by (simp add: Add_rows_def length_concat)
  have sc: "scatter (vTableIdx w) 0 nodes buf = unflatten (map length nodes) buf" for buf
    using L(3) by (rule scatter_flat)
  have un: "unflatten (map length nodes) (xs @ r) = unflatten (map length nodes) xs"
    if "length xs = ?tot" for xs r :: "'a list"
    using unflatten_take [of "map length nodes" ?tot "xs @ r"] that L(4) by simp
  have pc: "0 < length (pPCache w)" using L(9) S by simp
  show ?thesis
    using np asgd S pc
    by (simp add: ModelSync_def ModelSync_after_join_def Let_def ModelSync_join_not_pipelined
        g coef tr sc un)
qed

lemma list_all_update_buffer:
  "list_all (\<lambda>c. length c = n) pc \<Longrightarrow> length c' = n \<Longrightarrow>
   list_all (\<lambda>c. length c = n) (pc[t := c'])"
  using set_update_subset_insert [of pc t c'] by (auto simp add: list_all_iff)

lemma ModelSync_np_asgd_fields:
  assumes ok: "layout_ok w nodes" and np: "\<not> isPipeline w" and asgd: "elasticAdd w \<le> 0"
  shows "take (lTotalLength w) (pDelta (fst (ModelSync srv w nodes))) =
           map2 (-) (concat nodes) (take (lTotalLength w) (pPCache w ! 0))"
    and "adaptor (fst (ModelSync srv w nodes)) =
           adaptor w @ Add_rows w (pDelta (fst (ModelSync srv w nodes)))
              (getUpdateCoefficient (w\<lparr>commCnt := commCnt w + 1\<rparr>)) @ [BatchLoad]"
    and "take (lTotalLength w) (pPCache (fst (ModelSync srv w nodes)) ! 0) =
           map (srv (butlast (adaptor (fst (ModelSync srv w nodes))))) [0..<lTotalLength w]"
    and "snd (ModelSync srv w nodes) = unflatten (map length nodes)
           (map (srv (butlast (adaptor (fst (ModelSync srv w nodes))))) [0..<lTotalLength w])"
    and "nCacheIdx (fst (ModelSync srv w nodes)) = 0"
    and "commCnt (fst (ModelSync srv w nodes)) = commCnt w + 1"
    and "layout_ok (fst (ModelSync srv w nodes)) nodes"
    and "isPipeline (fst (ModelSync srv w nodes)) = isPipeline w"
    and "elasticAdd (fst (ModelSync srv w nodes)) = elasticAdd w"
    and "lTotalLength (fst (ModelSync srv w nodes)) = lTotalLength w"
proof -
  note L = layout_okD [OF ok]
  note S = layout_ok_slots(1) [OF ok np]
  note eq = ModelSync_np_asgd [OF ok np asgd, of srv]
  let ?tot = "lTotalLength w"
  have slot: "length (pPCache w ! 0) = ?tot + 1" using L(10) [of 0] S by simp
  have pc: "0 < length (pPCache w)" using L(9) S by simp
  have lc: "length (concat nodes) = ?tot" using L(4) by (simp add: length_concat)
  show "take ?tot (pDelta (fst (ModelSync srv w nodes))) =
      map2 (-) (concat nodes) (take ?tot (pPCache w ! 0))"
    using slot lc by (simp add: eq)
  show "adaptor (fst (ModelSync srv w nodes)) =
      adaptor w @ Add_rows w (pDelta (fst (ModelSync srv w nodes)))
        (getUpdateCoefficient (w\<lparr>commCnt := commCnt w + 1\<rparr>)) @ [BatchLoad]"
    by (simp add: eq)
  show "take ?tot (pPCache (fst (ModelSync srv w nodes)) ! 0) =
      map (srv (butlast (adaptor (fst (ModelSync srv w nodes))))) [0..<?tot]"
    using pc by (simp add: eq butlast_append)
  show "snd (ModelSync srv w nodes) = unflatten (map length nodes)
      (map (srv (butlast (adaptor (fst (ModelSync srv w nodes))))) [0..<?tot])"
    by (simp add: eq butlast_append)
  show "nCacheIdx (fst (ModelSync srv w nodes)) = 0" by (simp add: eq)
  show "commCnt (fst (ModelSync srv w nodes)) = commCnt w + 1" by (simp add: eq)
  have all: "list_all (\<lambda>c. length c = ?tot + 1) (pPCache w)"
    using ok unfolding layout_ok_def by blast
  show "layout_ok (fst (ModelSync srv w nodes)) nodes"
    unfolding eq fst_conv
  proof (rule layout_ok_buffers [OF ok])
    show "0 < nLocalCache w" using S by simp
    show "length (map2 (-) (concat nodes) (take ?tot (pPCache w ! 0)) @ drop ?tot (pDelta w)) = ?tot + 1"
      using slot lc L(8) by simp
    show "length (pPCache w) = length ((pPCache w)[0 :=
        map (srv (adaptor w @ Add_rows w
          (map2 (-) (concat nodes) (take ?tot (pPCache w ! 0)) @ drop ?tot (pDelta w))
          (getUpdateCoefficient (w\<lparr>commCnt := commCnt w + 1\<rparr>)))) [0..<?tot]
        @ drop ?tot (pPCache w ! 0)])"
      by simp
    show "list_all (\<lambda>c. length c = ?tot + 1) ((pPCache w)[0 :=
        map (srv (adaptor w @ Add_rows w
          (map2 (-) (concat nodes) (take ?tot (pPCache w ! 0)) @ drop ?tot (pDelta w))
          (getUpdateCoefficient (w\<lparr>commCnt := commCnt w + 1\<rparr>)))) [0..<?tot]
        @ drop ?tot (pPCache w ! 0)])"
      using all slot by (intro list_all_update_buffer) simp_all
  qed
  show "isPipeline (fst (ModelSync srv w nodes)) = isPipeline w" by (simp add: eq)
  show "elasticAdd (fst (ModelSync srv w nodes)) = elasticAdd w" by (simp add: eq)
  show "lTotalLength (fst (ModelSync srv w nodes)) = lTotalLength w" by (simp add: eq)
qed

lemma Init_partition_8_3: "Init_partition 8 3 0 0 = [(0, 3), (3, 3), (6, 2)]"
  by (simp add: Init_partition_closed upt_conv_Cons)

lemma replicate_8: "replicate 8 x = [x, x, x, x, x, x, x, x]"
  by (simp add: eval_nat_numeral)

lemma example_wrapper_state:
  "pPCache example_wrapper = [[0, 0, 0, 0, 0, 0, 0, 0, 0]]"
  "pDelta example_wrapper = [0, 0, 0, 0, 0, 0, 0, 0, 0]"
  "pIdxEachServer example_wrapper = [0, 3, 6]"
  "pSizeEachServer example_wrapper = [3, 3, 2]"
  "nClients example_wrapper = 3"
  "\<not> isPipeline example_wrapper"
  "elasticAdd example_wrapper = 0"
  "adaptor example_wrapper = []"
  by (simp_all add: example_wrapper_def MultiversoWrapper_def Init_def Let_def to_int_def
      Init_partition_8_3 replicate_8)

text \<open>
  Claim C2 (as amended). In a non-pipelined round under delta accumulation
  (\<^verbatim>\<open>_elasticAdd <= 0\<close>), on a wrapper with the layout of the tensors: the delta buffer
  holds, over the full flattened length, the local snapshot minus the content of slot 0
  (the snapshot merged last); one \<^verbatim>\<open>Add\<close> is issued per partition, in row order, from the
  delta buffer at the partition's offset, with the coefficient policy's factor for the
  round counter after its increment, and that factor is 1 when no ramp is configured;
  the \<^verbatim>\<open>BatchLoad\<close> that follows stores the merged snapshot in slot 0, the active slot,
  and the tensors are set from it; in the next round the delta pushed is the local
  snapshot minus this merged snapshot.
\<close>

theorem C2_delta_accumulation_round:
  assumes "layout_ok w nodes" and "\<not> isPipeline w" and "elasticAdd w \<le> 0"
    and "map length nodes2 = map length nodes"
  shows "let w' = fst (ModelSync srv w nodes);
             nodes' = snd (ModelSync srv w nodes);
             f = getUpdateCoefficient (w\<lparr>commCnt := commCnt w + 1\<rparr>);
             M = map (srv (butlast (adaptor w'))) [0..<lTotalLength w]
         in take (lTotalLength w) (pDelta w') =
              map2 (-) (concat nodes) (take (lTotalLength w) (pPCache w ! 0))
          \<and> adaptor w' = adaptor w
                @ map (\<lambda>row. Add row (drop (pIdxEachServer w ! row) (pDelta w')) f) [0..<nClients w]
                @ [BatchLoad]
          \<and> (adjustlearningrateatbeginningtype w = None_adjust \<longrightarrow> f = 1)
          \<and> nCacheIdx w' = 0
          \<and> take (lTotalLength w) (pPCache w' ! 0) = M
          \<and> nodes' = unflatten (map length nodes) M
          \<and> take (lTotalLength w) (pDelta (fst (ModelSync srv w' nodes2))) =
              map2 (-) (concat nodes2) M"
proof -
  note F = ModelSync_np_asgd_fields [OF assms(1,2,3), of srv]
  let ?w' = "fst (ModelSync srv w nodes)"
  have ok2: "layout_ok ?w' nodes2"
    using F(7) assms(4) by (rule layout_ok_shape)
  have np2: "\<not> isPipeline ?w'" using F(8) assms(2) by simp
  have asgd2: "elasticAdd ?w' \<le> 0" using F(9) assms(3) by simp
  have nxt: "take (lTotalLength w) (pDelta (fst (ModelSync srv ?w' nodes2))) =
      map2 (-) (concat nodes2) (map (srv (butlast (adaptor ?w'))) [0..<lTotalLength w])"
    using ModelSync_np_asgd_fields(1) [OF ok2 np2 asgd2, of srv] F(3,10) by simp
  have none: "adjustlearningrateatbeginningtype w = None_adjust \<longrightarrow>
      getUpdateCoefficient (w\<lparr>commCnt := commCnt w + 1\<rparr>) = 1"
    by (simp add: getUpdateCoefficient_def)
  show ?thesis
    unfolding Let_def
    using F(1,3,4,5) nxt none by (simp add: F(2) [unfolded Add_rows_def])
qed

theorem C2_delta_accumulation_round_witness:
  "layout_ok example_wrapper [[1, 2, 3], [4, 5, 6, 7, 8]] \<and> \<not> isPipeline example_wrapper
   \<and> elasticAdd example_wrapper \<le> 0
   \<and> take 8 (pDelta (fst (ModelSync (\<lambda>h j. 0) example_wrapper [[1, 2, 3], [4, 5, 6, 7, 8]])))
       = [1, 2, 3, 4, 5, 6, 7, 8]
   \<and> snd (ModelSync (\<lambda>h j. real j) example_wrapper [[1, 2, 3], [4, 5, 6, 7, 8]])
       = [[0, 1, 2], [3, 4, 5, 6, 7]]"
proof -
  have ok: "layout_ok example_wrapper [[1, 2, 3], [4, 5, 6, 7, 8]]"
    by (rule example_wrapper_layout_ok)
  have np: "\<not> isPipeline example_wrapper" and asgd: "elasticAdd example_wrapper \<le> 0"
    by (simp_all add: example_wrapper_state)
  have sh: "map length [[1, 2, 3], [4, 5, 6, 7, 8::real]] = map length [[1, 2, 3], [4, 5, 6, 7, 8::real]]"
    by simp
  from C2_delta_accumulation_round [OF ok np asgd sh, of "\<lambda>h j. 0"]
  have a: "take 8 (pDelta (fst (ModelSync (\<lambda>h j. 0) example_wrapper [[1, 2, 3], [4, 5, 6, 7, 8]])))
       = [1, 2, 3, 4, 5, 6, 7, 8]"
    by (simp add: Let_def example_wrapper_total example_wrapper_state)
  from C2_delta_accumulation_round [OF ok np asgd sh, of "\<lambda>h j. real j"]
  have b: "snd (ModelSync (\<lambda>h j. real j) example_wrapper [[1, 2, 3], [4, 5, 6, 7, 8]])
       = [[0, 1, 2], [3, 4, 5, 6, 7]]"
    by (simp add: Let_def example_wrapper_total upt_0_8)
  from ok np asgd a b show ?thesis by blast
qed

text \<open>
  The claim as stated fails in its parenthesis: with no ramp configured and 3 workers the
  three \<^verbatim>\<open>Add\<close> calls of a round carry the factor 1, not 1/3.
\<close>

theorem C2_counterexample:
  "adjustlearningrateatbeginningtype example_wrapper = None_adjust
   \<and> adaptor (fst (ModelSync (store [0, 3, 6] [3, 3, 2] (\<lambda>j. 0)) example_wrapper
         [[1, 2, 3], [4, 5, 6, 7, 8]]))
       = [Add 0 [1, 2, 3, 4, 5, 6, 7, 8, 0] 1, Add 1 [4, 5, 6, 7, 8, 0] 1, Add 2 [7, 8, 0] 1,
          BatchLoad]
   \<and> 1 / real (nClients example_wrapper) = 1 / 3"
proof -
  have ok: "layout_ok example_wrapper [[1, 2, 3], [4, 5, 6, 7, 8]]"
    by (rule example_wrapper_layout_ok)
  have np: "\<not> isPipeline example_wrapper" and asgd: "elasticAdd example_wrapper \<le> 0"
    by (simp_all add: example_wrapper_state)
  have f: "getUpdateCoefficient (example_wrapper\<lparr>commCnt := commCnt example_wrapper + 1\<rparr>) = 1"
    by (simp add: getUpdateCoefficient_def example_fields)
  have upt3: "[0..<3] = [0, 1, 2::nat]" by code_simp
  show ?thesis
    by (simp add: ModelSync_np_asgd [OF ok np asgd] Add_rows_def example_wrapper_total
        example_wrapper_state example_fields upt3 getUpdateCoefficient_def)
qed

section \<open>Initialisation of the model\<close>

lemma ModelInit_nodes_snd:
  "snd (ModelInit_nodes vti i nodes (cache, buf)) = gather vti i nodes buf"
  by (induction nodes arbitrary: i cache buf) auto

lemma ModelInit_nodes_fst:
  assumes "list_all (\<lambda>row. i + length nodes \<le> length row) cache"
  shows "fst (ModelInit_nodes vti i nodes (cache, buf)) =
     map (\<lambda>row. take i row @ nodes @ drop (i + length nodes) row) cache"
  using assms
proof (induction nodes arbitrary: i cache buf)
  case Nil
  then show ?case by simp
next
  case (Cons mat nodes)
  let ?cache1 = "map (\<lambda>row. row[i := mat]) cache"
  have rows: "list_all (\<lambda>row. (i + 1) + length nodes \<le> length row) ?cache1"
    using Cons.prems by (simp add: list_all_iff)
  have "fst (ModelInit_nodes vti i (mat # nodes) (cache, buf)) =
      fst (ModelInit_nodes vti (i + 1) nodes (?cache1, CopyToArray mat buf (vti ! i)))"
    by simp
  also have "\<dots> = map (\<lambda>row. take (i + 1) row @ nodes @ drop ((i + 1) + length nodes) row) ?cache1"
    using rows by (rule Cons.IH)
  also have "\<dots> = map (\<lambda>row. take i row @ (mat # nodes) @ drop (i + length (mat # nodes)) row) cache"
  proof -
    have "take (i + 1) (row[i := mat]) @ nodes @ drop ((i + 1) + length nodes) (row[i := mat]) =
        take i row @ (mat # nodes) @ drop (i + length (mat # nodes)) row"
      if "row \<in> set cache" for row
    proof -
      have len: "i < length row" using Cons.prems that by (auto simp add: list_all_iff)
      have "take (i + 1) (row[i := mat]) = take i row @ [mat]"
        using len by (simp add: take_Suc_conv_app_nth)
      moreover have "drop ((i + 1) + length nodes) (row[i := mat]) = drop (i + length (mat # nodes)) row"
        by simp
      ultimately show ?thesis by simp
    qed
    then show ?thesis by (simp add: comp_def)
  qed
  finally show ?case .
qed

lemma ModelInit_fields:
  assumes ok: "layout_ok w nodes"
  shows "pDelta (ModelInit srv w nodes) = concat nodes @ drop (lTotalLength w) (pDelta w)"
    and "adaptor (ModelInit srv w nodes) =
           adaptor w @ Add_rows w (pDelta (ModelInit srv w nodes)) (1 / real (nClients w))
             @ [Barrier, BatchLoad]"
    and "pPMatrixCache (ModelInit srv w nodes) = replicate (nLocalCache w) nodes"
    and "pPCache (ModelInit srv w nodes) =
           map (\<lambda>c. concat nodes @ drop (lTotalLength w) c) (pPCache w)"
    and "ModelInit srv w nodes =
           w\<lparr>pPMatrixCache := pPMatrixCache (ModelInit srv w nodes),
             pPCache := pPCache (ModelInit srv w nodes),
             pDelta := pDelta (ModelInit srv w nodes),
             adaptor := adaptor (ModelInit srv w nodes)\<rparr>"
    and "ModelInit srv' w nodes = ModelInit srv w nodes"
    and "layout_ok (ModelInit srv w nodes) nodes"
    and "caches_ok (ModelInit srv w nodes)"
proof -
  note L = layout_okD [OF ok]
  let ?tot = "lTotalLength w"
  let ?R = "ModelInit_nodes (vTableIdx w) 0 nodes (pPMatrixCache w, pPCache w ! 0)"
  have slot0: "length (pPCache w ! 0) = ?tot + 1"
    using L(10) [of 0] ok by (simp add: layout_ok_def split: if_splits)
  have lc: "length (concat nodes) = ?tot" using L(4) by (simp add: length_concat)
  have c0: "snd ?R = concat nodes @ drop ?tot (pPCache w ! 0)"
    using gather_flat [OF L(3), of "pPCache w ! 0"] L(4) slot0
    by (simp add: ModelInit_nodes_snd)
  have rows: "list_all (\<lambda>row. 0 + length nodes \<le> length row) (pPMatrixCache w)"
    using ok unfolding layout_ok_def by (auto simp add: list_all_iff)
  have rows': "list_all (\<lambda>row. length row = length nodes) (pPMatrixCache w)"
    using ok unfolding layout_ok_def by (auto simp add: list_all_iff)
  have "fst ?R = map (\<lambda>row. take 0 row @ nodes @ drop (0 + length nodes) row) (pPMatrixCache w)"
    using rows by (rule ModelInit_nodes_fst)
  also have "\<dots> = map (\<lambda>row. nodes) (pPMatrixCache w)"
    using rows' by (intro map_cong refl) (simp add: list_all_iff)
  also have "\<dots> = replicate (nLocalCache w) nodes"
    using ok by (simp add: map_replicate_const layout_ok_def)
  finally have cache: "fst ?R = replicate (nLocalCache w) nodes" .
  have R: "?R = (replicate (nLocalCache w) nodes, concat nodes @ drop ?tot (pPCache w ! 0))"
    using cache c0 by (simp add: prod_eq_iff)
  let ?pc = "fold (\<lambda>i pc. pc[i := memcpy (pc ! i) (pc ! 0) ?tot]) [1..<nLocalCache w]
      ((pPCache w)[0 := concat nodes @ drop ?tot (pPCache w ! 0)])"
  have pc: "?pc = map (\<lambda>c. concat nodes @ drop ?tot c) (pPCache w)"
  proof (cases "isPipeline w")
    case False
    then have n1: "nLocalCache w = 1" and len: "length (pPCache w) = 1"
      using ok by (simp_all add: layout_ok_def)
    then obtain a where a: "pPCache w = [a]"
      by (cases "pPCache w") auto
    show ?thesis by (simp add: n1 a)
  next
    case True
    then have n2: "nLocalCache w = 2" and len: "length (pPCache w) = 2"
      using ok by (simp_all add: layout_ok_def)
    then obtain a b where ab: "pPCache w = [a, b]"
      by (cases "pPCache w"; cases "tl (pPCache w)") auto
    have u: "[Suc 0..<2] = [Suc 0]" by code_simp
    show ?thesis using lc by (simp add: n2 ab u memcpy_def)
  qed
  have pc0: "?pc ! 0 = concat nodes @ drop ?tot (pPCache w ! 0)"
    using L(9) ok unfolding pc by (simp add: layout_ok_def split: if_splits)
  let ?d1 = "concat nodes @ drop ?tot (pDelta w)"
  have d1: "memcpy (pDelta w) (?pc ! 0) ?tot = ?d1"
    using lc by (simp only: pc0) (simp add: memcpy_def)
  have bl: "BatchLoad_buf m w ?d1 = map m [0..<?tot] @ drop ?tot (pDelta w)" for m
    using BatchLoad_flat [OF L(6,7,5), of ?d1 m] lc by simp
  have d3: "memcpy (map m [0..<?tot] @ drop ?tot (pDelta w)) (?pc ! 0) ?tot = ?d1" for m
    using lc by (simp only: pc0) (simp add: memcpy_def)
  have unfolded: "ModelInit s w nodes =
      w\<lparr>pPMatrixCache := replicate (nLocalCache w) nodes, pPCache := ?pc, pDelta := ?d1,
        adaptor := adaptor w @ Add_rows w ?d1 (1 / real (nClients w)) @ [Barrier, BatchLoad]\<rparr>"
    for s
    apply (simp only: ModelInit_def Let_def R prod.case)
    apply (simp only: d1 bl d3)
    apply simp
    done
  note unfolded = this [of srv] and indep = this [of srv']
  show "pDelta (ModelInit srv w nodes) = ?d1" by (simp add: unfolded)
  show "adaptor (ModelInit srv w nodes) =
      adaptor w @ Add_rows w (pDelta (ModelInit srv w nodes)) (1 / real (nClients w))
        @ [Barrier, BatchLoad]"
    by (simp add: unfolded)
  show "pPMatrixCache (ModelInit srv w nodes) = replicate (nLocalCache w) nodes"
    by (simp add: unfolded)
  show "pPCache (ModelInit srv w nodes) = map (\<lambda>c. concat nodes @ drop ?tot c) (pPCache w)"
    by (simp only: unfolded pc) simp
  show "ModelInit srv w nodes =
      w\<lparr>pPMatrixCache := pPMatrixCache (ModelInit srv w nodes),
        pPCache := pPCache (ModelInit srv w nodes),
        pDelta := pDelta (ModelInit srv w nodes),
        adaptor := adaptor (ModelInit srv w nodes)\<rparr>"
    by (simp add: ModelInit_def Let_def split: prod.splits)
  show "ModelInit srv' w nodes = ModelInit srv w nodes"
    by (simp only: indep unfolded)
  have lens: "length (concat nodes @ drop ?tot c) = ?tot + 1" if "length c = ?tot + 1" for c :: "'a list"
    using that lc by simp
  have all: "list_all (\<lambda>c. length c = ?tot + 1) (pPCache w)"
    using ok unfolding layout_ok_def by blast
  have all': "list_all (\<lambda>c. length c = ?tot + 1) (map (\<lambda>c. concat nodes @ drop ?tot c) (pPCache w))"
    using all lc by (auto simp add: list_all_iff)
  show "layout_ok (ModelInit srv w nodes) nodes"
    using ok all' L(8) lc
    unfolding unfolded pc layout_ok_def
    by (simp add: list_all_iff)
  show "caches_ok (ModelInit srv w nodes)"
    using L(1) unfolding unfolded caches_ok_def by (simp add: list_all_iff)
qed

text \<open>
  Claim C4 (as amended). On a wrapper with the layout of the tensors, \<^verbatim>\<open>ModelInit\<close> copies
  the local model into slot 0, into every other slot and into the delta buffer; it
  issues one \<^verbatim>\<open>Add\<close> per partition from the delta buffer with the weight
  \<open>1 / workerCount\<close>, then \<^verbatim>\<open>Barrier\<close>, then \<^verbatim>\<open>BatchLoad\<close>. The snapshot pulled goes to the
  delta buffer and is overwritten with slot 0 at once, so the state after \<^verbatim>\<open>ModelInit\<close>
  does not depend on what the server returns: every slot, the delta buffer and every
  device cache hold the initial local model. The layout is kept and the device caches
  have the sizes of the tensors.
\<close>

theorem C4_model_init:
  assumes "layout_ok w nodes"
  shows "let w' = ModelInit srv w nodes in
      adaptor w' = adaptor w
        @ map (\<lambda>row. Add row (drop (pIdxEachServer w ! row) (pDelta w')) (1 / real (nClients w)))
            [0..<nClients w]
        @ [Barrier, BatchLoad]
      \<and> take (lTotalLength w) (pDelta w') = concat nodes
      \<and> (\<forall>i<nLocalCache w. take (lTotalLength w) (pPCache w' ! i) = concat nodes)
      \<and> pPMatrixCache w' = replicate (nLocalCache w) nodes
      \<and> ModelInit srv' w nodes = w'
      \<and> layout_ok w' nodes \<and> caches_ok w'"
proof -
  note F = ModelInit_fields [OF assms]
  note L = layout_okD [OF assms]
  have lc: "length (concat nodes) = lTotalLength w" using L(4) by (simp add: length_concat)
  have slots: "\<forall>i<nLocalCache w. take (lTotalLength w) (pPCache (ModelInit srv w nodes) ! i) = concat nodes"
    using L(9) lc by (simp add: F(4))
  have delta: "take (lTotalLength w) (pDelta (ModelInit srv w nodes)) = concat nodes"
    using lc by (simp add: F(1))
  show ?thesis
    unfolding Let_def
    using slots delta F(3) [of srv] F(6) [of srv' srv] F(7) [of srv] F(8) [of srv]
    by (simp add: F(2) [of srv, unfolded Add_rows_def])
qed

lemma upt_0_3: "[0..<3] = [0, 1, 2::nat]"
  by code_simp

theorem C4_model_init_witness:
  "layout_ok example_wrapper [[0, 0, 0], [0, 0, 0, 0, 0]]
   \<and> nClients example_wrapper = 3
   \<and> adaptor (ModelInit (store [0, 3, 6] [3, 3, 2] (\<lambda>j. 0)) example_wrapper [[0, 0, 0], [0, 0, 0, 0, 0]])
       = [Add 0 [0, 0, 0, 0, 0, 0, 0, 0, 0] (1/3), Add 1 [0, 0, 0, 0, 0, 0] (1/3),
          Add 2 [0, 0, 0] (1/3), Barrier, BatchLoad]
   \<and> take 8 (pPCache (ModelInit (store [0, 3, 6] [3, 3, 2] (\<lambda>j. 0)) example_wrapper
         [[0, 0, 0], [0, 0, 0, 0, 0]]) ! 0) = [0, 0, 0, 0, 0, 0, 0, 0]
   \<and> map (store [0, 3, 6] [3, 3, 2] (\<lambda>j. 0)
          [Add 0 [0, 0, 0, 0, 0, 0, 0, 0, 0] (1/3), Add 1 [0, 0, 0, 0, 0, 0] (1/3),
           Add 2 [0, 0, 0] (1/3), Barrier]) [0..<8] = [0, 0, 0, 0, 0, 0, 0, 0]"
proof -
  let ?S = "store [0, 3, 6] [3, 3, 2] (\<lambda>j. 0)"
  let ?N = "[[0, 0, 0], [0, 0, 0, 0, 0::real]]"
  have ok: "layout_ok example_wrapper ?N" by (rule example_wrapper_layout_ok)
  note inst = C4_model_init [OF ok, of ?S, unfolded Let_def]
  have n1: "nLocalCache example_wrapper = 1"
    by (simp add: example_wrapper_def MultiversoWrapper_def Init_def Let_def)
  from inst have d: "take 8 (pDelta (ModelInit ?S example_wrapper ?N)) = [0, 0, 0, 0, 0, 0, 0, 0]"
    by (simp add: example_wrapper_total)
  have d9: "pDelta (ModelInit ?S example_wrapper ?N) = [0, 0, 0, 0, 0, 0, 0, 0, 0]"
    by (simp add: ModelInit_fields(1) [OF ok] example_wrapper_total example_wrapper_state)
  from inst have a: "adaptor (ModelInit ?S example_wrapper ?N)
       = [Add 0 [0, 0, 0, 0, 0, 0, 0, 0, 0] (1/3), Add 1 [0, 0, 0, 0, 0, 0] (1/3),
          Add 2 [0, 0, 0] (1/3), Barrier, BatchLoad]"
    by (simp add: d9 example_wrapper_state upt_0_3)
  from inst n1 have b: "take 8 (pPCache (ModelInit ?S example_wrapper ?N) ! 0) = [0, 0, 0, 0, 0, 0, 0, 0]"
    by (simp add: example_wrapper_total)
  have c: "map (?S [Add 0 [0, 0, 0, 0, 0, 0, 0, 0, 0] (1/3), Add 1 [0, 0, 0, 0, 0, 0] (1/3),
           Add 2 [0, 0, 0] (1/3), Barrier]) [0..<8] = [0, 0, 0, 0, 0, 0, 0, 0]"
    by (simp add: store_def upt_0_8)
  from ok a b c show ?thesis by (simp add: example_wrapper_state)
qed

text \<open>
  The claim as stated fails where it puts the pulled snapshot into slot 0: with a server
  that holds 10 at every position before this worker's calls (what the other two
  workers have added) and the local weights 1 to 8, the \<^verbatim>\<open>BatchLoad\<close> delivers
  \<open>10 + x/3\<close>, and slot 0 holds the local weights.
\<close>

theorem C4_counterexample:
  "take 8 (pPCache (ModelInit (store [0, 3, 6] [3, 3, 2] (\<lambda>j. 10)) example_wrapper
       [[1, 2, 3], [4, 5, 6, 7, 8]]) ! 0) = [1, 2, 3, 4, 5, 6, 7, 8]
   \<and> map (store [0, 3, 6] [3, 3, 2] (\<lambda>j. 10)
        (butlast (adaptor (ModelInit (store [0, 3, 6] [3, 3, 2] (\<lambda>j. 10)) example_wrapper
           [[1, 2, 3], [4, 5, 6, 7, 8]])))) [0..<8]
       = [31/3, 32/3, 11, 34/3, 35/3, 12, 37/3, 38/3]"
proof -
  let ?S = "store [0, 3, 6] [3, 3, 2] (\<lambda>j. 10)"
  let ?N = "[[1, 2, 3], [4, 5, 6, 7, 8::real]]"
  have ok: "layout_ok example_wrapper ?N" by (rule example_wrapper_layout_ok)
  note F = ModelInit_fields [OF ok]
  have d9: "pDelta (ModelInit ?S example_wrapper ?N) = [1, 2, 3, 4, 5, 6, 7, 8, 0]"
    by (simp add: F(1) example_wrapper_total example_wrapper_state)
  have a: "butlast (adaptor (ModelInit ?S example_wrapper ?N))
       = [Add 0 [1, 2, 3, 4, 5, 6, 7, 8, 0] (1/3), Add 1 [4, 5, 6, 7, 8, 0] (1/3),
          Add 2 [7, 8, 0] (1/3), Barrier]"
    by (simp add: F(2) d9 Add_rows_def example_wrapper_state upt_0_3)
  have b: "take 8 (pPCache (ModelInit ?S example_wrapper ?N) ! 0) = [1, 2, 3, 4, 5, 6, 7, 8]"
    by (simp add: F(4) example_wrapper_total example_wrapper_state)
  have c: "map (?S [Add 0 [1, 2, 3, 4, 5, 6, 7, 8, 0] (1/3), Add 1 [4, 5, 6, 7, 8, 0] (1/3),
          Add 2 [7, 8, 0] (1/3), Barrier]) [0..<8] = [31/3, 32/3, 11, 34/3, 35/3, 12, 37/3, 38/3]"
    by (simp add: store_def upt_0_8)
  from b c show ?thesis by (simp only: a)
qed

section \<open>Pipelined rounds: the background task\<close>

lemma ModelSync_nodes_gen:
  assumes "cur \<noteq> other" and "cur < length cache" and "other < length cache"
    and "i + length nodes \<le> length (cache ! cur)"
    and "i + length nodes \<le> length (cache ! other)"
    and "\<And>k. k < length nodes \<Longrightarrow> length (cache ! cur ! (i + k)) = length (nodes ! k)"
    and "\<And>k. k < length nodes \<Longrightarrow> length (cache ! other ! (i + k)) = length (nodes ! k)"
  shows "ModelSync_nodes cur other i nodes cache =
     (cache[cur := take i (cache ! cur) @ nodes @ drop (i + length nodes) (cache ! cur)],
      take (length nodes) (drop i (cache ! other)))"
  using assms
proof (induction nodes arbitrary: i cache)
  case Nil
  then show ?case by simp
next
  case (Cons mat nodes)
  let ?row = "cache ! cur"
  let ?cache1 = "cache[cur := ?row[i := memcpy (?row ! i) mat (length mat)]]"
  have i_cur: "i < length ?row" and i_other: "i < length (cache ! other)"
    using Cons.prems(4,5) by simp_all
  have len_cur: "length (?row ! i) = length mat" using Cons.prems(6) [of 0] by simp
  have len_other: "length (cache ! other ! i) = length mat" using Cons.prems(7) [of 0] by simp
  have m1: "memcpy (?row ! i) mat (length mat) = mat"
    using len_cur by (simp add: memcpy_def)
  have c1_cur: "?cache1 ! cur = ?row[i := mat]"
    using Cons.prems(2) by (simp add: m1)
  have c1_other: "?cache1 ! other = cache ! other"
    using Cons.prems(1) by simp
  have m2: "memcpy mat (?cache1 ! other ! i) (length mat) = cache ! other ! i"
    using len_other by (simp only: c1_other) (simp add: memcpy_def)
  have m2': "memcpy mat (cache ! other ! i) (length mat) = cache ! other ! i"
    using len_other by (simp add: memcpy_def)
  have IH: "ModelSync_nodes cur other (i + 1) nodes ?cache1 =
      (?cache1[cur := take (i + 1) (?cache1 ! cur) @ nodes @ drop ((i + 1) + length nodes) (?cache1 ! cur)],
       take (length nodes) (drop (i + 1) (?cache1 ! other)))"
  proof (rule Cons.IH)
    show "cur \<noteq> other" by (rule Cons.prems(1))
    show "cur < length ?cache1" using Cons.prems(2) by simp
    show "other < length ?cache1" using Cons.prems(3) by simp
    show "i + 1 + length nodes \<le> length (?cache1 ! cur)"
      using Cons.prems(4) by (simp add: c1_cur)
    show "i + 1 + length nodes \<le> length (?cache1 ! other)"
      using Cons.prems(5) by (simp add: c1_other)
    show "length (?cache1 ! cur ! (i + 1 + k)) = length (nodes ! k)" if "k < length nodes" for k
      using Cons.prems(6) [of "Suc k"] that by (simp add: c1_cur)
    show "length (?cache1 ! other ! (i + 1 + k)) = length (nodes ! k)" if "k < length nodes" for k
      using Cons.prems(7) [of "Suc k"] that by (simp add: c1_other)
  qed
  have upd: "?cache1[cur := take (i + 1) (?cache1 ! cur) @ nodes @ drop ((i + 1) + length nodes) (?cache1 ! cur)]
      = cache[cur := take i ?row @ (mat # nodes) @ drop (i + length (mat # nodes)) ?row]"
    using i_cur by (simp add: c1_cur take_Suc_conv_app_nth)
  have out: "cache ! other ! i # take (length nodes) (drop (i + 1) (cache ! other))
      = take (length (mat # nodes)) (drop i (cache ! other))"
    using i_other by (simp add: Cons_nth_drop_Suc [symmetric])
  have "ModelSync_nodes cur other i (mat # nodes) cache =
      (fst (ModelSync_nodes cur other (i + 1) nodes ?cache1),
       memcpy mat (?cache1 ! other ! i) (length mat)
         # snd (ModelSync_nodes cur other (i + 1) nodes ?cache1))"
    by (simp add: Let_def split: prod.splits)
  also have "\<dots> = (cache[cur := take i ?row @ (mat # nodes) @ drop (i + length (mat # nodes)) ?row],
      take (length (mat # nodes)) (drop i (cache ! other)))"
    by (simp only: IH fst_conv snd_conv c1_other m2' upd out)
  finally show ?case .
qed

lemma ModelSync_nodes_flat:
  assumes "cur \<noteq> other" and "cur < length cache" and "other < length cache"
    and "map length (cache ! cur) = map length nodes"
    and "map length (cache ! other) = map length nodes"
  shows "ModelSync_nodes cur other 0 nodes cache = (cache[cur := nodes], cache ! other)"
proof -
  have lc: "length (cache ! cur) = length nodes" and lo: "length (cache ! other) = length nodes"
    using assms(4,5) by (auto dest: map_eq_imp_length_eq)
  have ec: "length (cache ! cur ! (0 + k)) = length (nodes ! k)" if "k < length nodes" for k
    using assms(4) that lc by (metis add_0 nth_map)
  have eo: "length (cache ! other ! (0 + k)) = length (nodes ! k)" if "k < length nodes" for k
    using assms(5) that lo by (metis add_0 nth_map)
  have "ModelSync_nodes cur other 0 nodes cache =
     (cache[cur := take 0 (cache ! cur) @ nodes @ drop (0 + length nodes) (cache ! cur)],
      take (length nodes) (drop 0 (cache ! other)))"
    using assms(1,2,3) lc lo ec eo by (intro ModelSync_nodes_gen) simp_all
  then show ?thesis using lc lo by simp
qed

lemma transfer_task_frame:
  "transfer_task srv w =
     w\<lparr>pDelta := pDelta (transfer_task srv w), pPCache := pPCache (transfer_task srv w),
       adaptor := adaptor (transfer_task srv w),
       pPMatrixCache := pPMatrixCache (transfer_task srv w)\<rparr>"
  by (simp add: transfer_task_def Let_def transfer_def)










section \<open>Pipelined rounds: the buffers\<close>

lemma transfer_task_unfold:
  assumes ok: "layout_ok v nodes" and row: "pPMatrixCache v ! nCacheIdx v = nodes"
    and cur: "nCacheIdx v < length (pPMatrixCache v)"
  shows "transfer_task srv v =
     (let w2 = transfer srv (v\<lparr>pDelta := concat nodes @ drop (lTotalLength v) (pDelta v)\<rparr>)
                 (nCacheIdx v) (getUpdateCoefficient v)
      in w2\<lparr>pPMatrixCache := (pPMatrixCache v)[nCacheIdx v :=
             unflatten (map length nodes)
               (if elasticAdd v \<le> 0 then pPCache w2 ! nCacheIdx v else pDelta w2)]\<rparr>)"
proof -
  note L = layout_okD [OF ok]
  have tk: "take (nTableCnt v) nodes = nodes" "drop (nTableCnt v) nodes = []"
    using L(2) by simp_all
  have g: "gather (vTableIdx v) 0 nodes (pDelta v) = concat nodes @ drop (lTotalLength v) (pDelta v)"
    using gather_flat [OF L(3), of "pDelta v"] L(4,8) by simp
  have sc: "scatter (vTableIdx v) 0 nodes buf = unflatten (map length nodes) buf" for buf
    using L(3) by (rule scatter_flat)
  have fr: "elasticAdd (transfer srv u t f) = elasticAdd u"
    "vTableIdx (transfer srv u t f) = vTableIdx u"
    "nTableCnt (transfer srv u t f) = nTableCnt u"
    "pPMatrixCache (transfer srv u t f) = pPMatrixCache u"
    for u :: "'a wrapper" and t f
    by (subst transfer_frame, simp)+
  show ?thesis
    by (simp add: transfer_task_def Let_def row tk g sc fr)
qed

lemma ModelSync_pipelined_unfold:
  assumes ok: "layout_ok w nodes" and cok: "caches_ok w" and pl: "isPipeline w"
  shows "ModelSync srv w nodes =
     ((transfer_task srv
         (w\<lparr>commCnt := commCnt w + 1, pThread := NotJoinable,
            nCacheIdx := Suc 0 - nCacheIdx w,
            pPMatrixCache := (pPMatrixCache w)[Suc 0 - nCacheIdx w := nodes]\<rparr>))
        \<lparr>leaked := NotJoinable # leaked w, pThread := Transfer (Suc 0 - nCacheIdx w)\<rparr>,
      pPMatrixCache w ! nCacheIdx w)"
proof -
  note L = layout_okD [OF ok]
  note S = layout_ok_slots(2) [OF ok pl]
  let ?c = "nCacheIdx w"
  let ?t = "Suc 0 - nCacheIdx w"
  have c2: "?c < 2" using S by simp
  have rot: "pCacheState w ! ?c = ?t" "pCacheState w ! ?t = ?c"
    using S c2 by (auto simp add: nth_Cons' less_2_cases_iff)
  have ne: "?t \<noteq> ?c" using c2 by arith
  have lenc: "length (pPMatrixCache w) = 2"
    using ok S by (simp add: layout_ok_def)
  have rows: "map length (pPMatrixCache w ! k) = map length nodes" if "k < 2" for k
    using cok that lenc L(1) by (simp add: caches_ok_def list_all_length)
  have loop: "ModelSync_nodes ?t ?c 0 nodes (pPMatrixCache w) =
      ((pPMatrixCache w)[?t := nodes], pPMatrixCache w ! ?c)"
    using ne c2 lenc rows [of ?t] rows [of ?c] by (intro ModelSync_nodes_flat) simp_all
  have join: "ModelSync_join (w\<lparr>commCnt := commCnt w + 1\<rparr>) =
      w\<lparr>commCnt := commCnt w + 1, pThread := NotJoinable\<rparr>"
    by (cases "pThread w") (simp_all add: ModelSync_join_def pl)
  have tt: "leaked (transfer_task srv v) = leaked v" "pThread (transfer_task srv v) = pThread v"
    "nCacheIdx (transfer_task srv v) = nCacheIdx v"
    for v :: "'a wrapper"
    by (subst transfer_task_frame, simp)+
  show ?thesis
    by (simp add: ModelSync_def ModelSync_after_join_def Let_def join pl rot loop tt)
qed

lemma layout_ok_frame:
  assumes "layout_ok w nodes"
    and "vTableLength w' = vTableLength w" and "nTableCnt w' = nTableCnt w"
    and "vTableIdx w' = vTableIdx w" and "lTotalLength w' = lTotalLength w"
    and "nClients w' = nClients w" and "pIdxEachServer w' = pIdxEachServer w"
    and "pSizeEachServer w' = pSizeEachServer w" and "nLocalCache w' = nLocalCache w"
    and "isPipeline w' = isPipeline w" and "pCacheState w' = pCacheState w"
    and "nCacheIdx w' < nLocalCache w"
    and "length (pDelta w') = lTotalLength w + 1"
    and "pTempForServer w' = pTempForServer w" and "pTempForLocal w' = pTempForLocal w"
    and "length (pPCache w') = nLocalCache w"
    and "list_all (\<lambda>c. length c = lTotalLength w + 1) (pPCache w')"
    and "length (pPMatrixCache w') = nLocalCache w"
    and "list_all (\<lambda>row. length row = nTableCnt w) (pPMatrixCache w')"
  shows "layout_ok w' nodes"
  using assms unfolding layout_ok_def by simp

lemma ModelSync_pipelined_step:
  assumes ok: "layout_ok w nodes" and cok: "caches_ok w" and pl: "isPipeline w"
  shows "ModelSync srv w nodes =
     (let w2 = transfer srv
                 (w\<lparr>commCnt := commCnt w + 1, pThread := NotJoinable,
                    nCacheIdx := Suc 0 - nCacheIdx w,
                    pPMatrixCache := (pPMatrixCache w)[Suc 0 - nCacheIdx w := nodes],
                    pDelta := concat nodes @ drop (lTotalLength w) (pDelta w)\<rparr>)
                 (Suc 0 - nCacheIdx w) (getUpdateCoefficient (w\<lparr>commCnt := commCnt w + 1\<rparr>))
      in (w2\<lparr>pPMatrixCache := (pPMatrixCache w)[Suc 0 - nCacheIdx w :=
               unflatten (map length nodes)
                 (if elasticAdd w \<le> 0 then pPCache w2 ! (Suc 0 - nCacheIdx w) else pDelta w2)],
            leaked := NotJoinable # leaked w, pThread := Transfer (Suc 0 - nCacheIdx w)\<rparr>,
          pPMatrixCache w ! nCacheIdx w))"
proof -
  note S = layout_ok_slots(2) [OF ok pl]
  let ?t = "Suc 0 - nCacheIdx w"
  let ?v = "w\<lparr>commCnt := commCnt w + 1, pThread := NotJoinable, nCacheIdx := ?t,
      pPMatrixCache := (pPMatrixCache w)[?t := nodes]\<rparr>"
  have lenc: "length (pPMatrixCache w) = 2"
    using ok S by (simp add: layout_ok_def)
  have t2: "?t < 2" by arith
  have allc: "list_all (\<lambda>row. length row = nTableCnt w) (pPMatrixCache w)"
    and allp: "list_all (\<lambda>c. length c = lTotalLength w + 1) (pPCache w)"
    using ok unfolding layout_ok_def by blast+
  have ntc: "nTableCnt w = length nodes" using ok by (simp add: layout_ok_def)
  have okv: "layout_ok ?v nodes"
  proof (rule layout_ok_frame [OF ok])
    show "list_all (\<lambda>row. length row = nTableCnt w) (pPMatrixCache ?v)"
      using allc ntc set_update_subset_insert [of "pPMatrixCache w" ?t nodes]
      by (auto simp add: list_all_iff)
    show "list_all (\<lambda>c. length c = lTotalLength w + 1) (pPCache ?v)"
      using allp by simp
    show "nCacheIdx ?v < nLocalCache w" using S t2 by simp
  qed (use ok S lenc in \<open>simp_all add: layout_ok_def\<close>)
  have rowv: "pPMatrixCache ?v ! nCacheIdx ?v = nodes"
    using lenc t2 by simp
  have curv: "nCacheIdx ?v < length (pPMatrixCache ?v)"
    using lenc t2 by simp
  have coef: "getUpdateCoefficient ?v = getUpdateCoefficient (w\<lparr>commCnt := commCnt w + 1\<rparr>)"
    by (rule getUpdateCoefficient_cong) simp_all
  show ?thesis
    unfolding ModelSync_pipelined_unfold [OF ok cok pl] transfer_task_unfold [OF okv rowv curv] coef
    by (simp add: Let_def)
qed

lemma transfer_lengths:
  assumes "pIdxEachServer u = map fst (Init_partition (lTotalLength u) (nClients u) 0 0)"
    and "pSizeEachServer u = map snd (Init_partition (lTotalLength u) (nClients u) 0 0)"
    and "0 < nClients u"
    and "length (pDelta u) = lTotalLength u + 1"
    and "list_all (\<lambda>c. length c = lTotalLength u + 1) (pPCache u)"
    and "t < length (pPCache u)"
  shows "length (pDelta (transfer srv u t f)) = lTotalLength u + 1"
    and "length (pPCache (transfer srv u t f)) = length (pPCache u)"
    and "list_all (\<lambda>c. length c = lTotalLength u + 1) (pPCache (transfer srv u t f))"
proof -
  have slot: "length (pPCache u ! t) = lTotalLength u + 1"
    using assms(5,6) by (simp add: list_all_length)
  have both: "length (pDelta (transfer srv u t f)) = lTotalLength u + 1
      \<and> length (pPCache (transfer srv u t f)) = length (pPCache u)
      \<and> list_all (\<lambda>c. length c = lTotalLength u + 1) (pPCache (transfer srv u t f))"
  proof (cases "elasticAdd u \<le> 0")
    case True
    have e: "lTotalLength u \<le> length (pPCache u ! t)" using slot by simp
    show ?thesis
      unfolding transfer_asgd [OF assms(1,2,3) True e]
      using assms(4,5) slot by (simp add: list_all_update_buffer)
  next
    case False
    then have pos: "0 < elasticAdd u" by simp
    have e: "lTotalLength u \<le> length (pPCache u ! t)" using slot by simp
    have d: "lTotalLength u \<le> length (pDelta u)" using assms(4) by simp
    show ?thesis
      unfolding transfer_elastic [OF assms(1,2,3) pos e d]
      using assms(4,5) slot by (simp add: list_all_update_buffer)
  qed
  from both show "length (pDelta (transfer srv u t f)) = lTotalLength u + 1"
    and "length (pPCache (transfer srv u t f)) = length (pPCache u)"
    and "list_all (\<lambda>c. length c = lTotalLength u + 1) (pPCache (transfer srv u t f))"
    by blast+
qed

lemma ModelSync_pipelined_common:
  assumes ok: "layout_ok w nodes" and cok: "caches_ok w" and pl: "isPipeline w"
  shows "snd (ModelSync srv w nodes) = pPMatrixCache w ! nCacheIdx w"
    and "nCacheIdx (fst (ModelSync srv w nodes)) = Suc 0 - nCacheIdx w"
    and "layout_ok (fst (ModelSync srv w nodes)) nodes"
    and "caches_ok (fst (ModelSync srv w nodes))"
    and "isPipeline (fst (ModelSync srv w nodes))"
    and "elasticAdd (fst (ModelSync srv w nodes)) = elasticAdd w"
    and "lTotalLength (fst (ModelSync srv w nodes)) = lTotalLength w"
    and "pPMatrixCache (fst (ModelSync srv w nodes)) ! (Suc 0 - nCacheIdx w) =
           unflatten (map length nodes)
             (take (lTotalLength w)
               (if elasticAdd w \<le> 0
                then pPCache (fst (ModelSync srv w nodes)) ! (Suc 0 - nCacheIdx w)
                else pDelta (fst (ModelSync srv w nodes))))"
proof -
  note L = layout_okD [OF ok]
  note S = layout_ok_slots(2) [OF ok pl]
  note step = ModelSync_pipelined_step [OF ok cok pl, of srv]
  let ?t = "Suc 0 - nCacheIdx w"
  let ?f = "getUpdateCoefficient (w\<lparr>commCnt := commCnt w + 1\<rparr>)"
  let ?u = "w\<lparr>commCnt := commCnt w + 1, pThread := NotJoinable, nCacheIdx := ?t,
      pPMatrixCache := (pPMatrixCache w)[?t := nodes],
      pDelta := concat nodes @ drop (lTotalLength w) (pDelta w)\<rparr>"
  let ?w2 = "transfer srv ?u ?t ?f"
  let ?py = "if elasticAdd w \<le> 0 then pPCache ?w2 ! ?t else pDelta ?w2"
  let ?R = "fst (ModelSync srv w nodes)"
  have R: "?R = ?w2\<lparr>pPMatrixCache := (pPMatrixCache w)[?t := unflatten (map length nodes) ?py],
      leaked := NotJoinable # leaked w, pThread := Transfer ?t\<rparr>"
    by (simp add: step Let_def)
  have fr: "?w2 = ?u\<lparr>pDelta := pDelta ?w2, pPCache := pPCache ?w2, adaptor := adaptor ?w2\<rparr>"
    by (rule transfer_frame)
  have lenc: "length (pPMatrixCache w) = 2" using ok S by (simp add: layout_ok_def)
  have t2: "?t < 2" by arith
  have lc: "length (concat nodes) = lTotalLength w" using L(4) by (simp add: length_concat)
  have allp: "list_all (\<lambda>c. length c = lTotalLength w + 1) (pPCache w)"
    and allc: "list_all (\<lambda>row. length row = nTableCnt w) (pPMatrixCache w)"
    using ok unfolding layout_ok_def by blast+
  have lens: "length (pDelta ?w2) = lTotalLength w + 1"
    "length (pPCache ?w2) = length (pPCache w)"
    "list_all (\<lambda>c. length c = lTotalLength w + 1) (pPCache ?w2)"
    using transfer_lengths [of ?u ?t srv ?f] L(5,6,7,8,9) S lc allp t2 by simp_all
  have slot: "length (pPCache ?w2 ! ?t) = lTotalLength w + 1"
    using lens(2,3) L(9) S t2 by (simp add: list_all_length)
  have pylen: "lTotalLength w \<le> length ?py" using lens(1) slot by simp
  have shape: "map length (unflatten (map length nodes) ?py) = map length nodes"
    using pylen L(4) by (intro map_length_unflatten) simp
  show "snd (ModelSync srv w nodes) = pPMatrixCache w ! nCacheIdx w"
    by (simp add: step Let_def)
  show "nCacheIdx ?R = ?t" by (subst R, subst fr, simp)
  show "isPipeline ?R" using pl by (subst R, subst fr, simp)
  show "elasticAdd ?R = elasticAdd w" by (subst R, subst fr, simp)
  show "lTotalLength ?R = lTotalLength w" by (subst R, subst fr, simp)
  have pd: "pDelta ?R = pDelta ?w2" and pp: "pPCache ?R = pPCache ?w2"
    and pm: "pPMatrixCache ?R = (pPMatrixCache w)[?t := unflatten (map length nodes) ?py]"
    by (simp_all add: R)
  show "pPMatrixCache ?R ! ?t = unflatten (map length nodes)
      (take (lTotalLength w) (if elasticAdd w \<le> 0 then pPCache ?R ! ?t else pDelta ?R))"
    using lenc t2 L(4) by (simp add: pm pd pp unflatten_take)
  show "layout_ok ?R nodes"
  proof (rule layout_ok_frame [OF ok])
    show "length (pDelta ?R) = lTotalLength w + 1" using lens(1) by (simp add: pd)
    show "length (pPCache ?R) = nLocalCache w" using lens(2) L(9) by (simp add: pp)
    show "list_all (\<lambda>c. length c = lTotalLength w + 1) (pPCache ?R)"
      using lens(3) by (simp add: pp)
    show "length (pPMatrixCache ?R) = nLocalCache w" using lenc S by (simp add: pm)
    show "list_all (\<lambda>row. length row = nTableCnt w) (pPMatrixCache ?R)"
      unfolding pm
      using allc L(2) set_update_subset_insert [of "pPMatrixCache w" ?t "unflatten (map length nodes) ?py"]
      by (auto simp add: list_all_iff length_unflatten)
    show "nCacheIdx ?R < nLocalCache w" using S t2 by (subst R, subst fr, simp)
  qed (subst R, subst fr, simp)+
  show "caches_ok ?R"
  proof -
    have v: "vTableLength ?R = vTableLength w" by (subst R, subst fr, simp)
    have "list_all (\<lambda>row. map length row = vTableLength w) (pPMatrixCache w)"
      using cok by (simp add: caches_ok_def)
    then show ?thesis
      unfolding caches_ok_def v pm
      using shape L(1) set_update_subset_insert [of "pPMatrixCache w" ?t "unflatten (map length nodes) ?py"]
      by (auto simp add: list_all_iff)
  qed
qed

end
